theory Spec2Isabelle
  imports Main "HOL-Library.Word"
begin

section \<open>Wait on a value: the three backends of \<^verbatim>\<open>atomic_wait.cpp\<close>\<close>

text \<open>
  The source file holds three implementations of the same four operations, one per
  platform: a proxy to the operating system's wait-on-address primitive, a proxy to the
  futex system call, and a portable wait table built from mutexes and condition
  variables. Exactly one of them is compiled. Each is embedded below under its own names
  (the two native variants carry a suffix, the portable one keeps the source's names).
\<close>

subsection \<open>Machine types\<close>

type_synonym addr = nat \<comment> \<open>the integer value of a \<^verbatim>\<open>void*\<close>\<close>

type_synonym byte = "8 word"

type_synonym int32_t = "32 word" \<comment> \<open>read with \<^const>\<open>sint\<close>\<close>

type_synonym DWORD = "32 word" \<comment> \<open>read with \<^const>\<open>uint\<close>\<close>

type_synonym size_t = "64 word" \<comment> \<open>LP64: read with \<^const>\<open>uint\<close>\<close>

type_synonym time_t = "64 word" \<comment> \<open>signed, read with \<^const>\<open>sint\<close>\<close>

type_synonym long = "64 word" \<comment> \<open>signed, read with \<^const>\<open>sint\<close>\<close>

type_synonym milliseconds = "64 word"
  \<comment> \<open>the tick count of \<^verbatim>\<open>std::chrono::milliseconds\<close>, a signed 64-bit integer\<close>

record timespec =
  tv_sec :: time_t
  tv_nsec :: long

text \<open>\<^verbatim>\<open>sizeof(old)\<close> for the \<^verbatim>\<open>int32_t\<close> parameter of the public operations.\<close>

definition sizeof_int32 :: nat where
  "sizeof_int32 = 4"

subsection \<open>Calls to the operating system\<close>

text \<open>
  The native backends do nothing but hand arguments to the operating system. The call
  they make is the value of the model: one constructor per primitive, with the
  arguments in the order of the source.
\<close>

datatype os_call =
    WaitOnAddress addr int32_t nat DWORD
  | WakeByAddressSingle addr
  | WakeByAddressAll addr
  | syscall_futex addr int32_t int32_t "timespec option"

subsection \<open>The address-wait backend\<close>

text \<open>The constants are those of the system headers, with the values the headers give.\<close>

definition INFINITE :: DWORD where
  "INFINITE = 0xFFFFFFFF"

definition atomic_wait_native_win :: "addr \<Rightarrow> int32_t \<Rightarrow> os_call" where
  "atomic_wait_native_win atom old = WaitOnAddress atom old sizeof_int32 INFINITE"

text \<open>\<^verbatim>\<open>static_cast<DWORD>(ms.count())\<close> keeps the low 32 bits of the count.\<close>

definition atomic_wait_for_native_win :: "addr \<Rightarrow> int32_t \<Rightarrow> milliseconds \<Rightarrow> os_call" where
  "atomic_wait_for_native_win atom old ms =
     WaitOnAddress atom old sizeof_int32 (ucast ms :: DWORD)"

definition atomic_notify_one_native_win :: "addr \<Rightarrow> os_call" where
  "atomic_notify_one_native_win atom = WakeByAddressSingle atom"

definition atomic_notify_all_native_win :: "addr \<Rightarrow> os_call" where
  "atomic_notify_all_native_win atom = WakeByAddressAll atom"

text \<open>The timeout a call hands to the operating system, when it hands one.\<close>

fun timeout_argument :: "os_call \<Rightarrow> DWORD option" where
  "timeout_argument (WaitOnAddress a v n t) = Some t"
| "timeout_argument c = None"

subsection \<open>The futex backend\<close>

text \<open>\<^verbatim>\<open>FUTEX_WAIT | FUTEX_PRIVATE_FLAG\<close> and \<^verbatim>\<open>FUTEX_WAKE | FUTEX_PRIVATE_FLAG\<close> of
  \<^verbatim>\<open>linux/futex.h\<close>, and \<^verbatim>\<open>INT_MAX\<close>.\<close>

definition FUTEX_WAIT_PRIVATE :: int32_t where
  "FUTEX_WAIT_PRIVATE = 128"

definition FUTEX_WAKE_PRIVATE :: int32_t where
  "FUTEX_WAKE_PRIVATE = 129"

definition INT_MAX :: int32_t where
  "INT_MAX = 0x7FFFFFFF"

definition futex :: "addr \<Rightarrow> int32_t \<Rightarrow> int32_t \<Rightarrow> timespec option \<Rightarrow> os_call" where
  "futex a op' old ts = syscall_futex a op' old ts"

text \<open>
  \<^verbatim>\<open>ms / 1000\<close> and \<^verbatim>\<open>ms % 1000\<close> are unsigned; the product with the
  \<^verbatim>\<open>int\<close> literal is computed in \<^verbatim>\<open>size_t\<close>. Both results are then stored in
  signed fields of the same width.
\<close>

definition ms_to_time_spec :: "size_t \<Rightarrow> timespec" where
  "ms_to_time_spec ms =
     \<lparr> tv_sec = (ucast (ms div 1000) :: time_t),
       tv_nsec = (ucast ((ms mod 1000) * 1000000) :: long) \<rparr>"

definition atomic_wait_native_futex :: "addr \<Rightarrow> int32_t \<Rightarrow> os_call" where
  "atomic_wait_native_futex atom old = futex atom FUTEX_WAIT_PRIVATE old None"

text \<open>\<^verbatim>\<open>ms.count()\<close> is converted to \<^verbatim>\<open>size_t\<close> at the call.\<close>

definition atomic_wait_for_native_futex :: "addr \<Rightarrow> int32_t \<Rightarrow> milliseconds \<Rightarrow> os_call" where
  "atomic_wait_for_native_futex atom old ms =
     (let spec = ms_to_time_spec (ucast ms :: size_t)
      in futex atom FUTEX_WAIT_PRIVATE old (Some spec))"

definition atomic_notify_one_native_futex :: "addr \<Rightarrow> os_call" where
  "atomic_notify_one_native_futex atom = futex atom FUTEX_WAKE_PRIVATE 1 None"

definition atomic_notify_all_native_futex :: "addr \<Rightarrow> os_call" where
  "atomic_notify_all_native_futex atom = futex atom FUTEX_WAKE_PRIVATE INT_MAX None"

subsection \<open>The portable wait table: data\<close>

text \<open>
  A \<^verbatim>\<open>wait_context*\<close> is the address of a live context or \<^verbatim>\<open>nullptr\<close>
  (\<^const>\<open>None\<close>). The condition variable of a context is represented by the number of
  \<^verbatim>\<open>notify_all\<close> calls it has received. A \<^verbatim>\<open>scoped_wait_context\<close> extends the
  context by the bucket it was pushed to; a reference to a bucket is the bucket's index
  in \<^verbatim>\<open>m_wait_table\<close>.
\<close>

type_synonym ctx_ptr = nat

record wait_context =
  storage_ptr :: addr
  ctx_next :: "ctx_ptr option"
  ctx_prev :: "ctx_ptr option"
  cv :: nat

record scoped_wait_context = wait_context +
  parent_bucket :: nat

text \<open>
  Every operation of the table runs as one critical section of its bucket's mutex, and a
  condition-variable wait gives the mutex up while the thread sleeps. Between critical
  sections the mutex is free, so it is no field of the bucket here; what is kept of it
  is that acquiring it can throw.
\<close>

record wait_table_bucket =
  head :: "ctx_ptr option"

definition k_wait_table_size :: nat where
  "k_wait_table_size = 257"

text \<open>
  What a thread did that others can observe from outside: the comparison of the watched
  bytes and the waits on a condition variable, each tagged with the context of the call.
\<close>

datatype event =
    compared ctx_ptr addr nat
  | slept ctx_ptr
  | slept_for ctx_ptr milliseconds

text \<open>
  The state: the table's buckets (an array of \<^const>\<open>k_wait_table_size\<close> buckets, indexed
  below that bound only), the contexts alive on the stacks of the waiting threads, the
  bytes of memory, and the calling thread's own history of events.
\<close>

record state =
  m_wait_table :: "nat \<Rightarrow> wait_table_bucket"
  contexts :: "ctx_ptr \<rightharpoonup> scoped_wait_context"
  memory :: "addr \<Rightarrow> byte"
  history :: "event list"

subsection \<open>The portable wait table: outcomes and pointers\<close>

text \<open>
  How a call ends: it returns, a C++ exception leaves it (with the state it leaves
  behind), or the process stops at a failed \<^verbatim>\<open>assert\<close> or an access through a pointer
  to no live context.
\<close>

datatype abort = assertion_failed | invalid_access

datatype 'a outcome = Returned 'a | Threw 'a | Aborted abort

text \<open>Where \<^verbatim>\<open>std::system_error\<close> can be thrown: locking a mutex, constructing a
  condition variable.\<close>

record faults =
  lock_throws :: bool
  cv_ctor_throws :: bool

text \<open>
  Statements in sequence: the next one runs if the one before returned. A read or a write
  through a context pointer (\<open>p->next = v\<close>, \<open>p->prev = v\<close>, \<open>p->cv.notify_all()\<close>) stops
  the process when the pointer is to no live context; \<open>head = v\<close> writes the head of a
  bucket.
\<close>

definition seq :: "state outcome \<Rightarrow> (state \<Rightarrow> state outcome) \<Rightarrow> state outcome" where
  "seq r k = (case r of Returned s \<Rightarrow> k s | Threw s \<Rightarrow> Threw s | Aborted a \<Rightarrow> Aborted a)"

definition deref :: "state \<Rightarrow> ctx_ptr \<Rightarrow> (scoped_wait_context \<Rightarrow> state outcome) \<Rightarrow> state outcome" where
  "deref s p k = (case contexts s p of None \<Rightarrow> Aborted invalid_access | Some c \<Rightarrow> k c)"

definition store_next :: "ctx_ptr \<Rightarrow> ctx_ptr option \<Rightarrow> state \<Rightarrow> state outcome" where
  "store_next p v s =
     deref s p (\<lambda>c. Returned (s\<lparr>contexts := (contexts s)(p \<mapsto> c\<lparr>ctx_next := v\<rparr>)\<rparr>))"

definition store_prev :: "ctx_ptr \<Rightarrow> ctx_ptr option \<Rightarrow> state \<Rightarrow> state outcome" where
  "store_prev p v s =
     deref s p (\<lambda>c. Returned (s\<lparr>contexts := (contexts s)(p \<mapsto> c\<lparr>ctx_prev := v\<rparr>)\<rparr>))"

definition store_head :: "nat \<Rightarrow> ctx_ptr option \<Rightarrow> state \<Rightarrow> state" where
  "store_head b v s = s\<lparr>m_wait_table := (m_wait_table s)(b := (m_wait_table s b)\<lparr>head := v\<rparr>)\<rparr>"

definition cv_notify_all :: "ctx_ptr \<Rightarrow> state \<Rightarrow> state outcome" where
  "cv_notify_all p s =
     deref s p (\<lambda>c. Returned (s\<lparr>contexts := (contexts s)(p \<mapsto> c\<lparr>cv := cv c + 1\<rparr>)\<rparr>))"

definition record_event :: "event \<Rightarrow> state \<Rightarrow> state" where
  "record_event e s = s\<lparr>history := history s @ [e]\<rparr>"

subsection \<open>The portable wait table: buckets\<close>

definition push_front_wait_ctx :: "nat \<Rightarrow> ctx_ptr \<Rightarrow> state \<Rightarrow> state outcome" where
  "push_front_wait_ctx b ctx s =
     deref s ctx (\<lambda>c.
       if ctx_next c \<noteq> None then Aborted assertion_failed
       else if ctx_prev c \<noteq> None then Aborted assertion_failed
       else
         seq (store_next ctx (head (m_wait_table s b)) s) (\<lambda>s1.
         seq (case head (m_wait_table s1 b) of
                None \<Rightarrow> Returned s1
              | Some h \<Rightarrow> store_prev h (Some ctx) s1) (\<lambda>s2.
         Returned (store_head b (Some ctx) s2))))"

definition remove_wait_ctx :: "nat \<Rightarrow> ctx_ptr \<Rightarrow> state \<Rightarrow> state outcome" where
  "remove_wait_ctx b ctx s =
     (if head (m_wait_table s b) = None then Aborted assertion_failed
      else
        seq (if head (m_wait_table s b) = Some ctx
             then deref s ctx (\<lambda>c. Returned (store_head b (ctx_next c) s))
             else Returned s) (\<lambda>s1.
        seq (deref s1 ctx (\<lambda>c.
               case ctx_next c of
                 None \<Rightarrow> Returned s1
               | Some n \<Rightarrow> store_prev n (ctx_prev c) s1)) (\<lambda>s2.
        deref s2 ctx (\<lambda>c.
               case ctx_prev c of
                 None \<Rightarrow> Returned s2
               | Some p \<Rightarrow> store_next p (ctx_next c) s2))))"

subsection \<open>The portable wait table: scoped contexts\<close>

text \<open>
  The constructor builds the context at the address \<open>this\<close> (a local of the waiting
  call) and pushes it to the bucket; if the condition variable cannot be constructed,
  the exception leaves before anything is pushed. The destructor removes the context
  from the bucket it remembered, and the object is gone.
\<close>

definition new_context :: "addr \<Rightarrow> nat \<Rightarrow> scoped_wait_context" where
  "new_context a bucket =
     \<lparr>storage_ptr = a, ctx_next = None, ctx_prev = None, cv = 0, parent_bucket = bucket\<rparr>"

definition scoped_wait_context_ctor ::
    "faults \<Rightarrow> ctx_ptr \<Rightarrow> nat \<Rightarrow> addr \<Rightarrow> state \<Rightarrow> state outcome" where
  "scoped_wait_context_ctor f this bucket a s =
     (if cv_ctor_throws f then Threw s
      else
        push_front_wait_ctx bucket this
          (s\<lparr>contexts := (contexts s)(this \<mapsto> new_context a bucket)\<rparr>))"

definition scoped_wait_context_dtor :: "ctx_ptr \<Rightarrow> state \<Rightarrow> state outcome" where
  "scoped_wait_context_dtor this s =
     deref s this (\<lambda>c.
       seq (remove_wait_ctx (parent_bucket c) this s) (\<lambda>s1.
       Returned (s1\<lparr>contexts := (contexts s1)(this := None)\<rparr>)))"

subsection \<open>The portable wait table: notifying\<close>

text \<open>\<^verbatim>\<open>std::hash<std::uintptr_t>\<close> is implementation-defined: a parameter.\<close>

definition get_bucket_for :: "(addr \<Rightarrow> nat) \<Rightarrow> addr \<Rightarrow> nat" where
  "get_bucket_for hasher a = hasher a mod k_wait_table_size"

text \<open>
  The two scans follow \<^verbatim>\<open>next\<close> pointers until \<^verbatim>\<open>nullptr\<close>; on a cyclic list they
  do not return, which is the value \<^const>\<open>None\<close>.
\<close>

partial_function (option) notify_one_scan ::
    "addr \<Rightarrow> ctx_ptr option \<Rightarrow> state \<Rightarrow> state outcome option" where
  "notify_one_scan a cursor s =
     (case cursor of
        None \<Rightarrow> Some (Returned s)
      | Some p \<Rightarrow>
          (case contexts s p of
             None \<Rightarrow> Some (Aborted invalid_access)
           | Some c \<Rightarrow>
               if storage_ptr c = a then Some (cv_notify_all p s)
               else notify_one_scan a (ctx_next c) s))"

partial_function (option) notify_all_scan ::
    "addr \<Rightarrow> ctx_ptr option \<Rightarrow> state \<Rightarrow> state outcome option" where
  "notify_all_scan a cursor s =
     (case cursor of
        None \<Rightarrow> Some (Returned s)
      | Some p \<Rightarrow>
          (case contexts s p of
             None \<Rightarrow> Some (Aborted invalid_access)
           | Some c \<Rightarrow>
               (case (if storage_ptr c = a then cv_notify_all p s else Returned s) of
                  Returned s1 \<Rightarrow>
                    (case contexts s1 p of
                       None \<Rightarrow> Some (Aborted invalid_access)
                     | Some c1 \<Rightarrow> notify_all_scan a (ctx_next c1) s1)
                | Threw s1 \<Rightarrow> Some (Threw s1)
                | Aborted e \<Rightarrow> Some (Aborted e))))"

definition notify_one :: "(addr \<Rightarrow> nat) \<Rightarrow> faults \<Rightarrow> addr \<Rightarrow> state \<Rightarrow> state outcome option" where
  "notify_one hasher f a s =
     (let bucket = get_bucket_for hasher a in
      if lock_throws f then Some (Threw s)
      else notify_one_scan a (head (m_wait_table s bucket)) s)"

definition notify_all :: "(addr \<Rightarrow> nat) \<Rightarrow> faults \<Rightarrow> addr \<Rightarrow> state \<Rightarrow> state outcome option" where
  "notify_all hasher f a s =
     (let bucket = get_bucket_for hasher a in
      if lock_throws f then Some (Threw s)
      else notify_all_scan a (head (m_wait_table s bucket)) s)"

subsection \<open>The portable wait table: waiting\<close>

text \<open>
  \<^verbatim>\<open>memcmp\<close> over the first \<open>n\<close> bytes at the watched address and of the comparand
  buffer: the difference of the first pair of bytes that differ, 0 if none does. Reading
  past the comparand buffer has no result.
\<close>

fun memcmp_bytes :: "byte list \<Rightarrow> byte list \<Rightarrow> int" where
  "memcmp_bytes (x # xs) (y # ys) = (if x = y then memcmp_bytes xs ys else uint x - uint y)"
| "memcmp_bytes xs ys = 0"

definition bytes_at :: "(addr \<Rightarrow> byte) \<Rightarrow> addr \<Rightarrow> nat \<Rightarrow> byte list" where
  "bytes_at m a n = map (\<lambda>i. m (a + i)) [0..<n]"

definition memcmp :: "(addr \<Rightarrow> byte) \<Rightarrow> addr \<Rightarrow> byte list \<Rightarrow> nat \<Rightarrow> int option" where
  "memcmp m a comparand n =
     (if length comparand < n then None
      else Some (memcmp_bytes (bytes_at m a n) (take n comparand)))"

text \<open>
  A wait on the condition variable of a context. While the thread sleeps the rest of the
  program runs: \<open>sched\<close> maps the state at the moment the thread goes to sleep to the
  state at the moment it holds the mutex again, and has no value when the thread is never
  woken. The thread's history is its own. The bounded wait always wakes (at the latest
  when the timeout has passed), so its \<open>sched\<close> is total.
  Neither wait throws (since C++14 a condition-variable wait that cannot lock the mutex
  again ends the program).
\<close>

definition cv_wait :: "ctx_ptr \<Rightarrow> (state \<Rightarrow> state option) \<Rightarrow> state \<Rightarrow> state option" where
  "cv_wait p sched s =
     (case sched s of
        None \<Rightarrow> None
      | Some s' \<Rightarrow> Some (s'\<lparr>history := history s @ [slept p]\<rparr>))"

definition cv_wait_for :: "ctx_ptr \<Rightarrow> milliseconds \<Rightarrow> (state \<Rightarrow> state) \<Rightarrow> state \<Rightarrow> state" where
  "cv_wait_for p timeout_ms sched s =
     (sched s)\<lparr>history := history s @ [slept_for p timeout_ms]\<rparr>"

text \<open>
  The two overloads of \<^verbatim>\<open>wait\<close>. \<open>context\<close> is the address of the local
  \<^verbatim>\<open>scoped_wait_context\<close>; its destructor runs on every way out of the scope.
\<close>

definition wait ::
    "(addr \<Rightarrow> nat) \<Rightarrow> faults \<Rightarrow> (state \<Rightarrow> state option) \<Rightarrow> ctx_ptr \<Rightarrow>
     addr \<Rightarrow> byte list \<Rightarrow> nat \<Rightarrow> state \<Rightarrow> state outcome option" where
  "wait hasher f sched context a comparand size' s =
     (let bucket = get_bucket_for hasher a in
      if lock_throws f then Some (Threw s)
      else
        (case scoped_wait_context_ctor f context bucket a s of
           Returned s1 \<Rightarrow>
             (case memcmp (memory s1) a comparand size' of
                None \<Rightarrow> Some (Aborted invalid_access)
              | Some r \<Rightarrow>
                  let s2 = record_event (compared context a size') s1 in
                  if r \<noteq> 0 then Some (scoped_wait_context_dtor context s2)
                  else
                    (case cv_wait context sched s2 of
                       None \<Rightarrow> None
                     | Some s3 \<Rightarrow> Some (scoped_wait_context_dtor context s3)))
         | Threw s1 \<Rightarrow> Some (Threw s1)
         | Aborted e \<Rightarrow> Some (Aborted e)))"

definition wait_for ::
    "(addr \<Rightarrow> nat) \<Rightarrow> faults \<Rightarrow> (state \<Rightarrow> state) \<Rightarrow> ctx_ptr \<Rightarrow>
     addr \<Rightarrow> byte list \<Rightarrow> nat \<Rightarrow> milliseconds \<Rightarrow> state \<Rightarrow> state outcome" where
  "wait_for hasher f sched context a comparand size' timeout_ms s =
     (let bucket = get_bucket_for hasher a in
      if lock_throws f then Threw s
      else
        (case scoped_wait_context_ctor f context bucket a s of
           Returned s1 \<Rightarrow>
             (case memcmp (memory s1) a comparand size' of
                None \<Rightarrow> Aborted invalid_access
              | Some r \<Rightarrow>
                  let s2 = record_event (compared context a size') s1 in
                  if r \<noteq> 0 then scoped_wait_context_dtor context s2
                  else scoped_wait_context_dtor context (cv_wait_for context timeout_ms sched s2))
         | Threw s1 \<Rightarrow> Threw s1
         | Aborted e \<Rightarrow> Aborted e))"

subsection \<open>The portable wait table: the four public operations\<close>

text \<open>\<^verbatim>\<open>try { ... } catch (...) { }\<close>: an exception ends here and the function returns.\<close>

definition catch_all :: "state outcome \<Rightarrow> state outcome" where
  "catch_all r = (case r of Threw s \<Rightarrow> Returned s | Returned s \<Rightarrow> Returned s | Aborted e \<Rightarrow> Aborted e)"

text \<open>The bytes of the parameter \<^verbatim>\<open>old\<close>, least significant first.\<close>

definition bytes_of_int32 :: "int32_t \<Rightarrow> byte list" where
  "bytes_of_int32 w = [ucast w, ucast (drop_bit 8 w), ucast (drop_bit 16 w), ucast (drop_bit 24 w)]"

definition atomic_wait_native ::
    "(addr \<Rightarrow> nat) \<Rightarrow> faults \<Rightarrow> (state \<Rightarrow> state option) \<Rightarrow> ctx_ptr \<Rightarrow>
     addr \<Rightarrow> int32_t \<Rightarrow> state \<Rightarrow> state outcome option" where
  "atomic_wait_native hasher f sched context atom old s =
     map_option catch_all (wait hasher f sched context atom (bytes_of_int32 old) sizeof_int32 s)"

definition atomic_wait_for_native ::
    "(addr \<Rightarrow> nat) \<Rightarrow> faults \<Rightarrow> (state \<Rightarrow> state) \<Rightarrow> ctx_ptr \<Rightarrow>
     addr \<Rightarrow> int32_t \<Rightarrow> milliseconds \<Rightarrow> state \<Rightarrow> state outcome" where
  "atomic_wait_for_native hasher f sched context atom old ms s =
     catch_all (wait_for hasher f sched context atom (bytes_of_int32 old) sizeof_int32 ms s)"

definition atomic_notify_one_native ::
    "(addr \<Rightarrow> nat) \<Rightarrow> faults \<Rightarrow> addr \<Rightarrow> state \<Rightarrow> state outcome option" where
  "atomic_notify_one_native hasher f atom s = map_option catch_all (notify_one hasher f atom s)"

definition atomic_notify_all_native ::
    "(addr \<Rightarrow> nat) \<Rightarrow> faults \<Rightarrow> addr \<Rightarrow> state \<Rightarrow> state outcome option" where
  "atomic_notify_all_native hasher f atom s = map_option catch_all (notify_all hasher f atom s)"

subsection \<open>Well-formed buckets\<close>

text \<open>
  \<open>dll h before p xs\<close>: starting at \<open>p\<close>, the \<^verbatim>\<open>next\<close> pointers visit exactly the contexts
  \<open>xs\<close> and end at \<^verbatim>\<open>nullptr\<close>, and each \<^verbatim>\<open>prev\<close> pointer names the context visited just
  before (\<open>before\<close> for the first).
\<close>

fun dll :: "(ctx_ptr \<rightharpoonup> scoped_wait_context) \<Rightarrow> ctx_ptr option \<Rightarrow> ctx_ptr option \<Rightarrow> ctx_ptr list \<Rightarrow> bool" where
  "dll h before p [] = (p = None)"
| "dll h before p (x # xs) =
     (p = Some x \<and>
      (case h x of
         None \<Rightarrow> False
       | Some c \<Rightarrow> ctx_prev c = before \<and> dll h (Some x) (ctx_next c) xs))"

definition bucket_list :: "state \<Rightarrow> nat \<Rightarrow> ctx_ptr list \<Rightarrow> bool" where
  "bucket_list s b xs = dll (contexts s) None (head (m_wait_table s b)) xs"

text \<open>The links of a context, and everything else it holds.\<close>

definition links :: "scoped_wait_context \<Rightarrow> ctx_ptr option \<times> ctx_ptr option" where
  "links c = (ctx_next c, ctx_prev c)"

definition payload :: "scoped_wait_context \<Rightarrow> addr \<times> nat \<times> nat" where
  "payload c = (storage_ptr c, cv c, parent_bucket c)"

text \<open>\<open>same_links s s'\<close>: the heads of all buckets and the links of all contexts agree.\<close>

definition same_links :: "state \<Rightarrow> state \<Rightarrow> bool" where
  "same_links s s' =
     (m_wait_table s' = m_wait_table s
      \<and> (\<forall>z. map_option links (contexts s' z) = map_option links (contexts s z)))"

subsection \<open>Linking and unlinking\<close>

text \<open>
  What pushing and removing do to the contexts of a well-formed bucket, as functions on
  the map of live contexts: a write through a null pointer does not happen.
\<close>

definition set_prev_of ::
    "(ctx_ptr \<rightharpoonup> scoped_wait_context) \<Rightarrow> ctx_ptr option \<Rightarrow> ctx_ptr option \<Rightarrow>
     (ctx_ptr \<rightharpoonup> scoped_wait_context)" where
  "set_prev_of h q v =
     (case q of None \<Rightarrow> h
      | Some n \<Rightarrow> (case h n of None \<Rightarrow> h | Some c \<Rightarrow> h(n \<mapsto> c\<lparr>ctx_prev := v\<rparr>)))"

definition set_next_of ::
    "(ctx_ptr \<rightharpoonup> scoped_wait_context) \<Rightarrow> ctx_ptr option \<Rightarrow> ctx_ptr option \<Rightarrow>
     (ctx_ptr \<rightharpoonup> scoped_wait_context)" where
  "set_next_of h q v =
     (case q of None \<Rightarrow> h
      | Some n \<Rightarrow> (case h n of None \<Rightarrow> h | Some c \<Rightarrow> h(n \<mapsto> c\<lparr>ctx_next := v\<rparr>)))"

definition link_front ::
    "(ctx_ptr \<rightharpoonup> scoped_wait_context) \<Rightarrow> ctx_ptr option \<Rightarrow> ctx_ptr \<Rightarrow>
     (ctx_ptr \<rightharpoonup> scoped_wait_context)" where
  "link_front h first ctx =
     (case h ctx of None \<Rightarrow> h
      | Some c \<Rightarrow> set_prev_of (h(ctx \<mapsto> c\<lparr>ctx_next := first\<rparr>)) first (Some ctx))"

definition unlink ::
    "(ctx_ptr \<rightharpoonup> scoped_wait_context) \<Rightarrow> ctx_ptr \<Rightarrow> (ctx_ptr \<rightharpoonup> scoped_wait_context)" where
  "unlink h ctx =
     (case h ctx of None \<Rightarrow> h
      | Some c \<Rightarrow> set_next_of (set_prev_of h (ctx_next c) (ctx_prev c)) (ctx_prev c) (ctx_next c))"

text \<open>
  The states a scoped context's constructor and destructor lead to on a well-formed
  bucket: the context is linked in front, and taken out again and gone.
\<close>

definition registered :: "ctx_ptr \<Rightarrow> nat \<Rightarrow> addr \<Rightarrow> state \<Rightarrow> state" where
  "registered this b a s =
     store_head b (Some this)
       (s\<lparr>contexts := link_front ((contexts s)(this \<mapsto> new_context a b))
                          (head (m_wait_table s b)) this\<rparr>)"

definition unregistered :: "ctx_ptr \<Rightarrow> nat \<Rightarrow> state \<Rightarrow> state" where
  "unregistered this b s =
     (case contexts s this of
        None \<Rightarrow> s
      | Some c \<Rightarrow>
          (if head (m_wait_table s b) = Some this then store_head b (ctx_next c) s else s)
            \<lparr>contexts := (unlink (contexts s) this)(this := None)\<rparr>)"

subsection \<open>What a notification does\<close>

text \<open>
  \<open>watches s a q\<close>: \<open>q\<close> is a live context whose stored address is \<open>a\<close>.
  \<open>notified q s\<close>: the state after one \<^verbatim>\<open>notify_all\<close> on the condition variable of
  \<open>q\<close>. \<open>notified_all a xs s\<close>: the state after one on the condition variable of every
  context of \<open>xs\<close> that watches \<open>a\<close>.
\<close>

definition watches :: "state \<Rightarrow> addr \<Rightarrow> ctx_ptr \<Rightarrow> bool" where
  "watches s a q = (case contexts s q of None \<Rightarrow> False | Some c \<Rightarrow> storage_ptr c = a)"

definition notified :: "ctx_ptr \<Rightarrow> state \<Rightarrow> state" where
  "notified q s =
     (case contexts s q of
        None \<Rightarrow> s
      | Some c \<Rightarrow> s\<lparr>contexts := (contexts s)(q \<mapsto> c\<lparr>cv := cv c + 1\<rparr>)\<rparr>)"

definition notified_all :: "addr \<Rightarrow> ctx_ptr list \<Rightarrow> state \<Rightarrow> state" where
  "notified_all a xs s =
     s\<lparr>contexts := (\<lambda>q. if q \<in> set xs \<and> watches s a q
                          then map_option (\<lambda>c. c\<lparr>cv := cv c + 1\<rparr>) (contexts s q)
                          else contexts s q)\<rparr>"

subsection \<open>The well-formed table\<close>

text \<open>
  The whole table is well formed, with \<open>L b\<close> the contexts of bucket \<open>b\<close> from the head
  on: every bucket is a well-formed list, every live context is in the list of the bucket
  it remembers, and a list holds no context of another bucket.
\<close>

definition table_inv :: "state \<Rightarrow> (nat \<Rightarrow> ctx_ptr list) \<Rightarrow> bool" where
  "table_inv s L =
     ((\<forall>b<k_wait_table_size. bucket_list s b (L b))
      \<and> (\<forall>x c. contexts s x = Some c \<longrightarrow>
             parent_bucket c < k_wait_table_size \<and> x \<in> set (L (parent_bucket c)))
      \<and> (\<forall>b<k_wait_table_size. \<forall>x\<in>set (L b). \<forall>c. contexts s x = Some c \<longrightarrow> parent_bucket c = b))"

subsection \<open>What other threads do while a thread sleeps\<close>

text \<open>
  \<open>other_threads hasher c s s'\<close>: from \<open>s\<close>, threads other than the one that owns the
  context \<open>c\<close> lead to \<open>s'\<close>. Each of their steps is one critical section of the table
  or a store to memory: a notification, the registration of a new context of their own
  at the start of a wait, or the destruction of a context of their own at its end.
\<close>

inductive other_threads :: "(addr \<Rightarrow> nat) \<Rightarrow> ctx_ptr \<Rightarrow> state \<Rightarrow> state \<Rightarrow> bool"
  for hasher :: "addr \<Rightarrow> nat" and c :: ctx_ptr
where
  nothing: "other_threads hasher c s s"
| stores: "other_threads hasher c s s1 \<Longrightarrow> other_threads hasher c s (s1\<lparr>memory := m\<rparr>)"
| notifies_one:
    "other_threads hasher c s s1 \<Longrightarrow> notify_one hasher f a s1 = Some (Returned s2) \<Longrightarrow>
     other_threads hasher c s s2"
| notifies_all:
    "other_threads hasher c s s1 \<Longrightarrow> notify_all hasher f a s1 = Some (Returned s2) \<Longrightarrow>
     other_threads hasher c s s2"
| registers:
    "other_threads hasher c s s1 \<Longrightarrow> c' \<noteq> c \<Longrightarrow> contexts s1 c' = None \<Longrightarrow>
     scoped_wait_context_ctor f c' (get_bucket_for hasher a) a s1 = Returned s2 \<Longrightarrow>
     other_threads hasher c s s2"
| unregisters:
    "other_threads hasher c s s1 \<Longrightarrow> c' \<noteq> c \<Longrightarrow>
     scoped_wait_context_dtor c' s1 = Returned s2 \<Longrightarrow>
     other_threads hasher c s s2"

subsection \<open>States to run the operations on\<close>

text \<open>
  A table with the identity as hash function: the bucket of address 100 is bucket 100.
  \<^const>\<open>True\<close> marks a fault that happens.
\<close>

definition no_faults :: faults where
  "no_faults = \<lparr>lock_throws = False, cv_ctor_throws = False\<rparr>"

definition cv_fault :: faults where
  "cv_fault = \<lparr>lock_throws = False, cv_ctor_throws = True\<rparr>"

definition lock_fault :: faults where
  "lock_fault = \<lparr>lock_throws = True, cv_ctor_throws = False\<rparr>"

text \<open>The table as \<^verbatim>\<open>instance()\<close> constructs it: every bucket empty, no context alive.\<close>

definition empty_table :: state where
  "empty_table =
     \<lparr>m_wait_table = (\<lambda>b. \<lparr>head = None\<rparr>), contexts = Map.empty,
      memory = (\<lambda>a. 0), history = []\<rparr>"

text \<open>
  Bucket 100 holds context 12 (watching address 357, which also hashes to bucket 100) in
  front of context 11 (watching address 100); the word at address 100 is 0.
\<close>

definition two_waiters :: state where
  "two_waiters =
     \<lparr>m_wait_table = (\<lambda>b. \<lparr>head = None\<rparr>)(100 := \<lparr>head = Some 12\<rparr>),
      contexts = [11 \<mapsto> \<lparr>storage_ptr = 100, ctx_next = None, ctx_prev = Some 12, cv = 0,
                          parent_bucket = 100\<rparr>,
                  12 \<mapsto> \<lparr>storage_ptr = 357, ctx_next = Some 11, ctx_prev = None, cv = 0,
                          parent_bucket = 100\<rparr>],
      memory = (\<lambda>a. 0), history = []\<rparr>"

definition two_waiters_lists :: "nat \<Rightarrow> ctx_ptr list" where
  "two_waiters_lists = (\<lambda>b. [])(100 := [12, 11])"

text \<open>
  An ill-formed bucket, as no run of the table produces it: the only context of bucket 100
  is its own successor.
\<close>

definition looping_bucket :: state where
  "looping_bucket =
     \<lparr>m_wait_table = (\<lambda>b. \<lparr>head = None\<rparr>)(100 := \<lparr>head = Some 11\<rparr>),
      contexts = [11 \<mapsto> \<lparr>storage_ptr = 100, ctx_next = Some 11, ctx_prev = None, cv = 0,
                          parent_bucket = 100\<rparr>],
      memory = (\<lambda>a. 0), history = []\<rparr>"

text \<open>
  Two schedulers for a thread that sleeps on address 100: another thread calls
  \<^const>\<open>notify_one\<close> for the address; another thread stores 1 there and notifies nobody
  (the sleeper then wakes by the timeout).
\<close>

definition notifier :: "state \<Rightarrow> state option" where
  "notifier s =
     (case notify_one (\<lambda>a. a) no_faults 100 s of
        Some (Returned s') \<Rightarrow> Some s'
      | _ \<Rightarrow> None)"

definition silent_store :: "state \<Rightarrow> state" where
  "silent_store s = s\<lparr>memory := (memory s)(100 := 1)\<rparr>"

section \<open>The native backends: timeouts\<close>

lemma sint_eq_uint_small:
  fixes w :: "64 word"
  assumes "uint w < 2 ^ 63"
  shows "sint w = uint w"
proof -
  have "sint w = signed_take_bit 63 (uint w)"
    by (simp add: sint_uint)
  also have "\<dots> = uint w"
  proof (rule signed_take_bit_int_eq_self)
    have "0 \<le> uint w" by simp
    moreover have "- (2 ^ 63) \<le> (0::int)" by simp
    ultimately show "- (2 ^ 63) \<le> uint w" by (rule order_trans [rotated])
    show "uint w < 2 ^ 63" by (rule assms)
  qed
  finally show ?thesis .
qed

lemma uint_lt_64: "uint (w :: 64 word) < 18446744073709551616"
  using uint_bounded [of w] by simp

lemma tv_sec_value: "sint (tv_sec (ms_to_time_spec ms)) = uint ms div 1000"
proof -
  have "uint (ms div 1000) = uint ms div 1000"
    by (simp add: uint_div)
  moreover have "uint ms div 1000 < 2 ^ 63"
    using uint_lt_64 [of ms] by simp
  ultimately show ?thesis
    by (simp add: ms_to_time_spec_def sint_eq_uint_small)
qed

lemma tv_nsec_value: "sint (tv_nsec (ms_to_time_spec ms)) = (uint ms mod 1000) * 1000000"
proof -
  have m: "uint (ms mod 1000) = uint ms mod 1000"
    by (simp add: uint_mod)
  have lt: "uint ms mod 1000 < 1000" and ge: "0 \<le> uint ms mod 1000"
    by simp_all
  have small: "(uint ms mod 1000) * 1000000 < 2 ^ 63"
    using lt ge by simp
  have "uint ((ms mod 1000) * 1000000) = ((uint ms mod 1000) * 1000000) mod 2 ^ 64"
    by (simp add: uint_word_ariths m)
  also have "\<dots> = (uint ms mod 1000) * 1000000"
    using small ge by (intro mod_pos_pos_trivial) simp_all
  finally have "uint ((ms mod 1000) * 1000000) = (uint ms mod 1000) * 1000000" .
  with small show ?thesis
    by (simp add: ms_to_time_spec_def sint_eq_uint_small)
qed

text \<open>
  C7. For every millisecond count \<open>ms\<close> (a \<^verbatim>\<open>size_t\<close>, so never negative),
  \<^const>\<open>ms_to_time_spec\<close> returns \<open>tv_sec = ms div 1000\<close> and
  \<open>tv_nsec = (ms mod 1000) * 1000000\<close>; the conversion loses nothing
  (\<open>tv_sec * 1000 + tv_nsec div 1000000 = ms\<close>) and \<open>tv_nsec\<close> lies in
  \<open>[0, 1000000000)\<close>. Neither the unsigned product nor the stores into the signed
  fields overflow.
\<close>

theorem ms_to_time_spec_exact:
  "sint (tv_sec (ms_to_time_spec ms)) = uint ms div 1000
   \<and> sint (tv_nsec (ms_to_time_spec ms)) = (uint ms mod 1000) * 1000000
   \<and> sint (tv_sec (ms_to_time_spec ms)) * 1000
       + sint (tv_nsec (ms_to_time_spec ms)) div 1000000 = uint ms
   \<and> 0 \<le> sint (tv_nsec (ms_to_time_spec ms))
   \<and> sint (tv_nsec (ms_to_time_spec ms)) < 1000000000"
  by (simp add: tv_sec_value tv_nsec_value)

lemma dword_of_count: "uint (ucast (ms :: 64 word) :: 32 word) = sint ms mod 2 ^ 32"
proof -
  have "uint (ucast ms :: 32 word) = uint ms mod 2 ^ 32"
    by (simp add: unsigned_ucast_eq take_bit_eq_mod)
  also have "uint ms = sint ms mod 2 ^ 64"
    by (simp add: uint_sint take_bit_eq_mod)
  also have "sint ms mod 2 ^ 64 mod 2 ^ 32 = sint ms mod 2 ^ 32"
    by (simp add: mod_mod_cancel)
  finally show ?thesis .
qed

text \<open>
  C8, as the code has it. The bounded wait of the address-wait backend hands the
  operating system the count cast to \<^verbatim>\<open>DWORD\<close>, that is the count modulo \<open>2 ^ 32\<close>;
  this is the count itself exactly when the count lies in \<open>[0, 2 ^ 32)\<close>.
\<close>

theorem win_timeout_is_count_mod_2_32:
  "timeout_argument (atomic_wait_for_native_win atom old ms) = Some (ucast ms)
   \<and> uint (ucast ms :: DWORD) = sint ms mod 2 ^ 32
   \<and> (uint (ucast ms :: DWORD) = sint ms) = (0 \<le> sint ms \<and> sint ms < 2 ^ 32)"
proof -
  have "(sint ms mod 2 ^ 32 = sint ms) = (0 \<le> sint ms \<and> sint ms < 2 ^ 32)"
    by (smt (verit) mod_pos_pos_trivial pos_mod_bound pos_mod_sign zero_less_power)
  then show ?thesis
    by (simp add: atomic_wait_for_native_win_def dword_of_count)
qed

text \<open>
  C8, as the claim has it, fails: a timeout of \<open>2 ^ 32\<close> milliseconds reaches the
  operating system as 0.
\<close>

theorem win_timeout_counterexample:
  "timeout_argument (atomic_wait_for_native_win 0 0 4294967296) = Some 0
   \<and> uint (0 :: DWORD) \<noteq> sint (4294967296 :: milliseconds)"
  by (simp add: atomic_wait_for_native_win_def)

section \<open>Lists of contexts in the heap\<close>

lemma seq_Returned: "seq (Returned s) k = k s"
  by (simp add: seq_def)

lemma seq_Aborted: "seq (Aborted a) k = Aborted a"
  by (simp add: seq_def)

lemma seq_Threw: "seq (Threw s) k = Threw s"
  by (simp add: seq_def)

lemma deref_live: "contexts s p = Some c \<Longrightarrow> deref s p k = k c"
  by (simp add: deref_def)

lemma deref_dead: "contexts s p = None \<Longrightarrow> deref s p k = Aborted invalid_access"
  by (simp add: deref_def)

declare seq_Returned [simp] seq_Aborted [simp] seq_Threw [simp] deref_live [simp] deref_dead [simp]

lemma dll_live: "dll h before p xs \<Longrightarrow> x \<in> set xs \<Longrightarrow> \<exists>c. h x = Some c"
  by (induction xs arbitrary: before p) (auto split: option.splits)

lemma dll_head: "dll h before p xs \<Longrightarrow> p = (case xs of [] \<Rightarrow> None | x # _ \<Rightarrow> Some x)"
  by (cases xs) auto

lemma dll_suffix:
  "dll h before p (xs @ ys) \<Longrightarrow> \<exists>b' q. dll h b' q ys"
  by (induction xs arbitrary: before p) (auto split: option.splits)

lemma dll_unique:
  "dll h b p xs \<Longrightarrow> dll h b' p ys \<Longrightarrow> xs = ys"
proof (induction xs arbitrary: ys b b' p)
  case Nil
  then show ?case by (cases ys) auto
next
  case (Cons x xs)
  then show ?case by (cases ys) (auto split: option.splits)
qed

lemma dll_distinct: "dll h before p xs \<Longrightarrow> distinct xs"
proof (induction xs arbitrary: before p)
  case Nil
  then show ?case by simp
next
  case (Cons x xs)
  then obtain c where c: "p = Some x" "h x = Some c" "dll h (Some x) (ctx_next c) xs"
    by (auto split: option.splits)
  have "x \<notin> set xs"
  proof
    assume "x \<in> set xs"
    then obtain as bs where xs: "xs = as @ x # bs" by (auto dest: split_list)
    with c(3) obtain b' q where "dll h b' q (x # bs)"
      using dll_suffix [of h "Some x" "ctx_next c" as "x # bs"] by auto
    then have "dll h b' (Some x) (x # bs)" by auto
    with c(2) have "dll h (Some x) (ctx_next c) bs" by simp
    with c(3) have "xs = bs" by (rule dll_unique)
    with xs show False by simp
  qed
  with Cons.IH [OF c(3)] show ?case by simp
qed

lemma dll_frame:
  assumes "\<forall>x\<in>set xs. map_option links (h' x)
                        = map_option links (h x)"
  shows "dll h' before p xs = dll h before p xs"
  using assms
proof (induction xs arbitrary: before p)
  case Nil
  then show ?case by simp
next
  case (Cons x xs)
  from Cons.prems have hx: "map_option links (h' x)
                        = map_option links (h x)"
    by simp
  from Cons.prems have rest: "\<forall>y\<in>set xs. map_option links (h' y)
                        = map_option links (h y)"
    by simp
  show ?case
  proof (cases "h x")
    case None
    with hx have "h' x = None" by simp
    with None show ?thesis by simp
  next
    case (Some c)
    with hx obtain c' where c': "h' x = Some c'" "ctx_next c' = ctx_next c" "ctx_prev c' = ctx_prev c"
      by (cases "h' x") (auto simp: links_def)
    with Some Cons.IH [OF rest] show ?thesis by simp
  qed
qed

lemma dll_same:
  assumes "dll h before p xs" and "\<forall>x\<in>set xs. h' x = h x"
  shows "dll h' before p xs"
  using assms dll_frame [of xs h' h before p] by simp

text \<open>Where a context stands in its list fixes both of its links.\<close>

lemma dll_links_at:
  assumes "dll h before p (xs @ ctx # ys)" and "h ctx = Some c"
  shows "ctx_prev c = (if xs = [] then before else Some (last xs))
         \<and> ctx_next c = (case ys of [] \<Rightarrow> None | y # _ \<Rightarrow> Some y)"
  using assms
proof (induction xs arbitrary: before p)
  case Nil
  then show ?case by (cases ys) (auto split: option.splits)
next
  case (Cons x xs)
  then obtain cx where cx: "h x = Some cx" "dll h (Some x) (ctx_next cx) (xs @ ctx # ys)"
    by (auto split: option.splits)
  from Cons.IH [OF cx(2) Cons.prems(2)] show ?case by simp
qed

lemma bucket_list_fresh:
  assumes "bucket_list s b xs" and "contexts s ctx = None"
  shows "ctx \<notin> set xs"
  using assms dll_live [of "contexts s" None "head (m_wait_table s b)" xs ctx]
  by (auto simp: bucket_list_def)

lemma first_in_list:
  assumes "bucket_list s b L" and "z \<notin> set L"
  shows "head (m_wait_table s b) \<noteq> Some z"
  using assms dll_head [of "contexts s" None "head (m_wait_table s b)" L]
  by (cases L) (auto simp: bucket_list_def)

section \<open>Linking and unlinking a context\<close>

lemma set_prev_of_payload:
  "map_option payload (set_prev_of h q v z) = map_option payload (h z)"
  by (simp add: set_prev_of_def payload_def split: option.splits)

lemma set_next_of_payload:
  "map_option payload (set_next_of h q v z) = map_option payload (h z)"
  by (simp add: set_next_of_def payload_def split: option.splits)

lemma link_front_payload: "map_option payload (link_front h first ctx z) = map_option payload (h z)"
  by (simp add: link_front_def set_prev_of_payload payload_def split: option.splits)

lemma link_front_outside:
  "z \<noteq> ctx \<Longrightarrow> first \<noteq> Some z \<Longrightarrow> link_front h first ctx z = h z"
  by (simp add: link_front_def set_prev_of_def split: option.splits)

lemma link_front_self:
  assumes "h ctx = Some c" and "first \<noteq> Some ctx"
  shows "link_front h first ctx ctx = Some (c\<lparr>ctx_next := first\<rparr>)"
  using assms by (auto simp: link_front_def set_prev_of_def split: option.splits)

lemma link_front_dll:
  assumes d: "dll h None first xs" and c: "h ctx = Some c" "ctx_prev c = None"
    and new: "ctx \<notin> set xs"
  shows "dll (link_front h first ctx) None (Some ctx) (ctx # xs)"
proof (cases xs)
  case Nil
  with d have "first = None" by simp
  with c Nil show ?thesis by (simp add: link_front_def set_prev_of_def)
next
  case (Cons x xs')
  with d obtain cx where x: "first = Some x" "h x = Some cx" "ctx_prev cx = None"
      "dll h (Some x) (ctx_next cx) xs'"
    by (auto split: option.splits)
  from new Cons have ne: "x \<noteq> ctx" "ctx \<notin> set xs'" by auto
  from dll_distinct [OF d] Cons have nx: "x \<notin> set xs'" by simp
  have at_ctx: "link_front h first ctx ctx = Some (c\<lparr>ctx_next := Some x\<rparr>)"
    using c x ne by (simp add: link_front_def set_prev_of_def)
  have at_x: "link_front h first ctx x = Some (cx\<lparr>ctx_prev := Some ctx\<rparr>)"
    using c x ne by (simp add: link_front_def set_prev_of_def)
  have "\<forall>z\<in>set xs'. map_option links (link_front h first ctx z) = map_option links (h z)"
    using c x ne nx by (auto simp: link_front_def set_prev_of_def)
  then have "dll (link_front h first ctx) (Some x) (ctx_next cx) xs' = dll h (Some x) (ctx_next cx) xs'"
    by (rule dll_frame)
  with x at_ctx at_x c Cons show ?thesis by simp
qed

lemma unlink_at:
  assumes "h ctx = Some c" and "ctx_next c \<noteq> Some z" and "ctx_prev c \<noteq> Some z"
  shows "unlink h ctx z = h z"
  using assms
  by (auto simp: unlink_def set_next_of_def set_prev_of_def split: option.splits)

lemma unlink_payload: "map_option payload (unlink h ctx z) = map_option payload (h z)"
  by (simp add: unlink_def set_next_of_payload set_prev_of_payload split: option.splits)

lemma unlink_outside:
  assumes d: "dll h None p L" and ctx: "ctx \<in> set L" and z: "z \<notin> set L"
  shows "unlink h ctx z = h z"
proof -
  from ctx obtain xs ys where L: "L = xs @ ctx # ys" by (auto dest: split_list)
  from dll_live [OF d ctx] obtain c where c: "h ctx = Some c" by blast
  from dll_links_at [OF d [unfolded L] c]
  have "ctx_prev c = (if xs = [] then None else Some (last xs))"
       "ctx_next c = (case ys of [] \<Rightarrow> None | y # _ \<Rightarrow> Some y)"
    by simp_all
  with z L have "ctx_next c \<noteq> Some z" "ctx_prev c \<noteq> Some z"
    by (auto split: list.splits if_splits)
  with c show ?thesis by (intro unlink_at)
qed

lemma unlink_dll:
  assumes "dll h before p (xs @ ctx # ys)"
    and "distinct (xs @ ctx # ys)"
    and "\<forall>q. before = Some q \<longrightarrow> q \<notin> set (xs @ ctx # ys)"
    and "h ctx = Some c"
  shows "dll (unlink h ctx) before (if xs = [] then ctx_next c else p) (xs @ ys)"
  using assms
proof (induction xs arbitrary: before p)
  case Nil
  from Nil.prems have pc: "ctx_prev c = before" and tl: "dll h (Some ctx) (ctx_next c) ys"
    by auto
  show ?case
  proof (cases ys)
    case Nil
    with tl show ?thesis by simp
  next
    case (Cons y ys')
    with tl obtain cy where cy: "ctx_next c = Some y" "h y = Some cy" "ctx_prev cy = Some ctx"
        "dll h (Some y) (ctx_next cy) ys'"
      by (auto split: option.splits)
    from Nil.prems Cons have ne: "y \<noteq> ctx" "y \<notin> set ys'" "ctx \<notin> set ys'"
       "\<forall>q. before = Some q \<longrightarrow> q \<noteq> y \<and> q \<notin> set ys'"
      by auto
    have uy: "unlink h ctx y = Some (cy\<lparr>ctx_prev := before\<rparr>)"
      using Nil.prems(4) cy pc ne
      by (auto simp: unlink_def set_next_of_def set_prev_of_def split: option.splits)
    have "\<forall>z\<in>set ys'. unlink h ctx z = h z"
    proof
      fix z assume z: "z \<in> set ys'"
      with ne cy pc have "ctx_next c \<noteq> Some z" "ctx_prev c \<noteq> Some z" by auto
      with Nil.prems(4) show "unlink h ctx z = h z" by (rule unlink_at)
    qed
    with cy(4) have "dll (unlink h ctx) (Some y) (ctx_next cy) ys'"
      by (rule dll_same)
    with uy cy Cons show ?thesis by simp
  qed
next
  case (Cons x xs)
  from Cons.prems obtain cx where cx: "p = Some x" "h x = Some cx" "ctx_prev cx = before"
      "dll h (Some x) (ctx_next cx) (xs @ ctx # ys)"
    by (auto split: option.splits)
  from Cons.prems have d: "distinct (xs @ ctx # ys)" and nx: "x \<notin> set (xs @ ctx # ys)"
    by auto
  from nx have b: "\<forall>q. Some x = Some q \<longrightarrow> q \<notin> set (xs @ ctx # ys)" by simp
  have ih: "dll (unlink h ctx) (Some x) (if xs = [] then ctx_next c else ctx_next cx) (xs @ ys)"
    by (rule Cons.IH [OF cx(4) d b Cons.prems(4)])
  from dll_links_at [OF cx(4) Cons.prems(4)]
  have lk: "ctx_prev c = (if xs = [] then Some x else Some (last xs))"
       "ctx_next c = (case ys of [] \<Rightarrow> None | y # _ \<Rightarrow> Some y)"
    by simp_all
  have nn: "ctx_next c \<noteq> Some x"
    using lk(2) nx by (cases ys) auto
  have ux: "unlink h ctx x = Some (if xs = [] then cx\<lparr>ctx_next := ctx_next c\<rparr> else cx)"
  proof (cases "xs = []")
    case True
    with lk have "ctx_prev c = Some x" by simp
    with Cons.prems(4) cx nn True show ?thesis
      by (auto simp: unlink_def set_next_of_def set_prev_of_def split: option.splits)
  next
    case False
    with lk nx have "ctx_prev c \<noteq> Some x" by auto
    with Cons.prems(4) nn have "unlink h ctx x = h x" by (intro unlink_at) auto
    with cx False show ?thesis by simp
  qed
  with ih cx show ?case by auto
qed

lemma unlink_link_front:
  assumes d: "dll h None first xs" and c: "h ctx = Some c" "ctx_prev c = None"
    and new: "ctx \<notin> set xs"
  shows "unlink (link_front h first ctx) ctx = h(ctx \<mapsto> c\<lparr>ctx_next := first\<rparr>)"
proof (cases xs)
  case Nil
  with d have "first = None" by simp
  with c show ?thesis
    by (simp add: unlink_def link_front_def set_prev_of_def set_next_of_def)
next
  case (Cons x xs')
  with d obtain cx where x: "first = Some x" "h x = Some cx" "ctx_prev cx = None"
    by (auto split: option.splits)
  from new Cons have ne: "x \<noteq> ctx" by auto
  have "cx\<lparr>ctx_prev := None\<rparr> = cx" using x(3) by simp
  with c x ne show ?thesis
    by (auto simp: unlink_def link_front_def set_prev_of_def set_next_of_def fun_upd_twist)
qed

section \<open>The states of the examples\<close>

lemma bucket_100: "get_bucket_for (\<lambda>a. a) 100 = 100"
  by (simp add: get_bucket_for_def k_wait_table_size_def)

lemma bucket_357: "get_bucket_for (\<lambda>a. a) 357 = 100"
  by (simp add: get_bucket_for_def k_wait_table_size_def)

lemma no_faults_simps [simp]: "\<not> lock_throws no_faults" "\<not> cv_ctor_throws no_faults"
  by (simp_all add: no_faults_def)

lemma bucket_list_two_waiters: "bucket_list two_waiters 100 [12, 11]"
  by (simp add: bucket_list_def two_waiters_def)

lemma watches_two_waiters [simp]:
  "watches two_waiters 100 11" "\<not> watches two_waiters 100 12"
  "\<not> watches two_waiters 357 11" "watches two_waiters 357 12"
  by (simp_all add: watches_def two_waiters_def)

lemma two_waiters_13 [simp]: "contexts two_waiters 13 = None"
  by (simp add: two_waiters_def)

lemma two_waiters_contexts:
  "contexts two_waiters 11 = Some \<lparr>storage_ptr = 100, ctx_next = None, ctx_prev = Some 12, cv = 0,
                          parent_bucket = 100\<rparr>"
  "contexts two_waiters 12 = Some \<lparr>storage_ptr = 357, ctx_next = Some 11, ctx_prev = None, cv = 0,
                          parent_bucket = 100\<rparr>"
  by (simp_all add: two_waiters_def)

lemma bytes_of_int32_0: "bytes_of_int32 0 = [0, 0, 0, 0]"
  by (simp add: bytes_of_int32_def)

lemma bytes_at_4: "bytes_at m a 4 = [m a, m (a + 1), m (a + 2), m (a + 3)]"
  by (simp add: bytes_at_def upt_rec numeral_3_eq_3)

lemma table_inv_empty: "table_inv empty_table (\<lambda>b. [])"
  by (simp add: table_inv_def bucket_list_def empty_table_def)

lemma table_inv_two_waiters: "table_inv two_waiters two_waiters_lists"
  unfolding table_inv_def
  by (auto simp: bucket_list_def two_waiters_def two_waiters_lists_def k_wait_table_size_def
      split: if_splits)

section \<open>Buckets: pushing and removing\<close>

lemma push_front_link:
  assumes bl: "bucket_list s b xs" and c: "contexts s ctx = Some c"
    and fresh: "ctx_next c = None" "ctx_prev c = None"
  shows "push_front_wait_ctx b ctx s =
           Returned (store_head b (Some ctx)
                      (s\<lparr>contexts := link_front (contexts s) (head (m_wait_table s b)) ctx\<rparr>))"
proof (cases xs)
  case Nil
  with bl have "head (m_wait_table s b) = None" by (simp add: bucket_list_def)
  with c fresh show ?thesis
    by (simp add: push_front_wait_ctx_def store_next_def link_front_def set_prev_of_def)
next
  case (Cons x xs')
  with bl obtain cx where hd: "head (m_wait_table s b) = Some x" and cx: "contexts s x = Some cx"
    by (auto simp: bucket_list_def split: option.splits)
  show ?thesis
  proof (cases "x = ctx")
    case True
    with c fresh hd cx show ?thesis
      by (simp add: push_front_wait_ctx_def store_next_def store_prev_def link_front_def
          set_prev_of_def)
  next
    case False
    with c fresh hd cx show ?thesis
      by (simp add: push_front_wait_ctx_def store_next_def store_prev_def link_front_def
          set_prev_of_def)
  qed
qed

lemma remove_wait_ctx_unlink:
  assumes bl: "bucket_list s b (xs @ ctx # ys)" and c: "contexts s ctx = Some c"
  shows "remove_wait_ctx b ctx s =
           Returned ((if xs = [] then store_head b (ctx_next c) s else s)
                       \<lparr>contexts := unlink (contexts s) ctx\<rparr>)"
proof -
  from bl have d: "dll (contexts s) None (head (m_wait_table s b)) (xs @ ctx # ys)"
    by (simp add: bucket_list_def)
  from d have dist: "distinct (xs @ ctx # ys)"
    by (rule dll_distinct)
  from dll_head [OF d] have hd: "head (m_wait_table s b) = Some (if xs = [] then ctx else hd xs)"
    by (cases xs) auto
  have hd_ctx: "(head (m_wait_table s b) = Some ctx) = (xs = [])"
    using hd dist by (cases xs) auto
  from dll_links_at [OF d c]
  have lk: "ctx_prev c = (if xs = [] then None else Some (last xs))"
       "ctx_next c = (case ys of [] \<Rightarrow> None | y # _ \<Rightarrow> Some y)"
    by simp_all
  define s1 where "s1 = (if xs = [] then store_head b (ctx_next c) s else s)"
  have s1c: "contexts s1 = contexts s"
    by (simp add: s1_def store_head_def)
  have step1: "(if head (m_wait_table s b) = Some ctx
             then deref s ctx (\<lambda>c. Returned (store_head b (ctx_next c) s))
             else Returned s) = Returned s1"
    using c hd_ctx by (simp add: s1_def deref_def)
  define s2 where "s2 = s1\<lparr>contexts := set_prev_of (contexts s) (ctx_next c) (ctx_prev c)\<rparr>"
  have step2: "deref s1 ctx (\<lambda>c. case ctx_next c of None \<Rightarrow> Returned s1
               | Some n \<Rightarrow> store_prev n (ctx_prev c) s1) = Returned s2"
  proof (cases ys)
    case Nil
    with lk c s1c show ?thesis by (simp add: deref_def s2_def set_prev_of_def)
  next
    case (Cons y ys')
    with dll_live [OF d, of y] obtain cy where "contexts s y = Some cy" by auto
    with Cons lk c s1c show ?thesis
      by (simp add: deref_def s2_def set_prev_of_def store_prev_def)
  qed
  have c2: "contexts s2 ctx = Some c"
    using c lk dist by (cases ys) (auto simp: s2_def set_prev_of_def split: option.splits)
  have step3: "deref s2 ctx (\<lambda>c. case ctx_prev c of None \<Rightarrow> Returned s2
               | Some p \<Rightarrow> store_next p (ctx_next c) s2)
             = Returned (s1\<lparr>contexts := unlink (contexts s) ctx\<rparr>)"
  proof (cases "xs = []")
    case True
    with lk c c2 show ?thesis
      by (simp add: deref_def s2_def unlink_def set_next_of_def)
  next
    case False
    then have "last xs \<in> set (xs @ ctx # ys)" by simp
    with dll_live [OF d] obtain cp where cp: "contexts s (last xs) = Some cp" by blast
    have "last xs \<noteq> ctx" using False dist by auto
    have "\<exists>cp'. contexts s2 (last xs) = Some cp'"
      using cp by (auto simp: s2_def set_prev_of_def split: option.splits)
    then obtain cp' where cp': "contexts s2 (last xs) = Some cp'" ..
    with False lk c c2 show ?thesis
      by (simp add: deref_def store_next_def unlink_def set_next_of_def)
         (simp add: s2_def)
  qed
  from d hd have "head (m_wait_table s b) \<noteq> None" by simp
  then have "remove_wait_ctx b ctx s = Returned (s1\<lparr>contexts := unlink (contexts s) ctx\<rparr>)"
    unfolding remove_wait_ctx_def
    by (simp add: step1 step2 step3)
  then show ?thesis by (simp add: s1_def)
qed

lemma push_then_remove:
  assumes bl: "bucket_list s b L" and c: "contexts s ctx = Some c"
    and null: "ctx_next c = None" "ctx_prev c = None" and new: "ctx \<notin> set L"
  shows "seq (push_front_wait_ctx b ctx s) (remove_wait_ctx b ctx)
           = Returned (s\<lparr>contexts := (contexts s)(ctx \<mapsto> c\<lparr>ctx_next := head (m_wait_table s b)\<rparr>)\<rparr>)"
proof -
  let ?first = "head (m_wait_table s b)"
  let ?s1 = "store_head b (Some ctx) (s\<lparr>contexts := link_front (contexts s) ?first ctx\<rparr>)"
  from bl have d: "dll (contexts s) None ?first L" by (simp add: bucket_list_def)
  have push: "push_front_wait_ctx b ctx s = Returned ?s1"
    using bl c null by (rule push_front_link)
  have ne: "?first \<noteq> Some ctx"
    using dll_head [OF d] new by (cases L) auto
  have c1: "contexts ?s1 ctx = Some (c\<lparr>ctx_next := ?first\<rparr>)"
    using link_front_self [of "contexts s" ctx c ?first] c ne by (simp add: store_head_def)
  have "dll (link_front (contexts s) ?first ctx) None (Some ctx) (ctx # L)"
    using d c null(2) new by (rule link_front_dll)
  then have bl1: "bucket_list ?s1 b ([] @ ctx # L)"
    by (simp add: bucket_list_def store_head_def)
  have "remove_wait_ctx b ctx ?s1
          = Returned ((store_head b ?first ?s1)\<lparr>contexts := unlink (contexts ?s1) ctx\<rparr>)"
    using remove_wait_ctx_unlink [OF bl1 c1] by simp
  also have "unlink (contexts ?s1) ctx = (contexts s)(ctx \<mapsto> c\<lparr>ctx_next := ?first\<rparr>)"
    using unlink_link_front [OF d c null(2) new] by (simp add: store_head_def)
  also have "(store_head b ?first ?s1)\<lparr>contexts := (contexts s)(ctx \<mapsto> c\<lparr>ctx_next := ?first\<rparr>)\<rparr>
      = s\<lparr>contexts := (contexts s)(ctx \<mapsto> c\<lparr>ctx_next := ?first\<rparr>)\<rparr>"
    by (simp add: store_head_def)
  finally show ?thesis by (simp add: push)
qed

section \<open>Scoped contexts: registering and unregistering\<close>

lemma registered_frame [simp]:
  "memory (registered this b a s) = memory s"
  "history (registered this b a s) = history s"
  "b' \<noteq> b \<Longrightarrow> m_wait_table (registered this b a s) b' = m_wait_table s b'"
  "head (m_wait_table (registered this b a s) b) = Some this"
  by (simp_all add: registered_def store_head_def)

lemma unregistered_frame [simp]:
  "memory (unregistered this b s) = memory s"
  "history (unregistered this b s) = history s"
  "b' \<noteq> b \<Longrightarrow> m_wait_table (unregistered this b s) b' = m_wait_table s b'"
  "contexts (unregistered this b s) this = None"
  by (simp_all add: unregistered_def store_head_def split: option.splits)

lemma registered_payload:
  "z \<noteq> this \<Longrightarrow> map_option payload (contexts (registered this b a s) z) = map_option payload (contexts s z)"
  by (simp add: registered_def store_head_def link_front_payload)

lemma unregistered_payload:
  "z \<noteq> this \<Longrightarrow> map_option payload (contexts (unregistered this b s) z) = map_option payload (contexts s z)"
  by (simp add: unregistered_def store_head_def unlink_payload split: option.splits)

lemma registered_outside:
  assumes "bucket_list s b L" and "z \<noteq> this" and "z \<notin> set L"
  shows "contexts (registered this b a s) z = contexts s z"
  using first_in_list [OF assms(1) assms(3)] assms(2)
  by (simp add: registered_def store_head_def link_front_outside)

lemma unregistered_outside:
  assumes "bucket_list s b L" and "this \<in> set L" and "z \<notin> set L"
  shows "contexts (unregistered this b s) z = contexts s z"
proof -
  from assms have "z \<noteq> this" by auto
  moreover have "unlink (contexts s) this z = contexts s z"
    using assms by (intro unlink_outside) (simp_all add: bucket_list_def)
  ultimately show ?thesis
    by (simp add: unregistered_def store_head_def split: option.splits)
qed

lemma registered_self:
  assumes "bucket_list s b L" and "contexts s this = None"
  shows "contexts (registered this b a s) this
           = Some ((new_context a b)\<lparr>ctx_next := head (m_wait_table s b)\<rparr>)"
proof -
  from assms have "this \<notin> set L" by (rule bucket_list_fresh)
  with assms(1) have "head (m_wait_table s b) \<noteq> Some this" by (rule first_in_list)
  then show ?thesis
    using link_front_self [of "(contexts s)(this \<mapsto> new_context a b)" this "new_context a b"
        "head (m_wait_table s b)"]
    by (simp add: registered_def store_head_def)
qed

lemma ctor_registered:
  assumes bl: "bucket_list s b L" and fresh: "contexts s this = None"
    and ok: "\<not> cv_ctor_throws f"
  shows "scoped_wait_context_ctor f this b a s = Returned (registered this b a s)"
proof -
  define s0 where "s0 = s\<lparr>contexts := (contexts s)(this \<mapsto> new_context a b)\<rparr>"
  from bl fresh have new: "this \<notin> set L" by (rule bucket_list_fresh)
  from bl have d: "dll (contexts s) None (head (m_wait_table s b)) L" by (simp add: bucket_list_def)
  have "dll (contexts s0) None (head (m_wait_table s b)) L"
    using new by (intro dll_same [OF d]) (auto simp: s0_def)
  then have bl0: "bucket_list s0 b L" by (simp add: bucket_list_def s0_def)
  have h0: "contexts s0 this = Some (new_context a b)" by (simp add: s0_def)
  have null: "ctx_next (new_context a b) = None" "ctx_prev (new_context a b) = None"
    by (simp_all add: new_context_def)
  have "push_front_wait_ctx b this s0 = Returned (registered this b a s)"
    using push_front_link [OF bl0 h0 null] by (simp add: registered_def s0_def)
  with ok show ?thesis
    by (simp add: scoped_wait_context_ctor_def s0_def)
qed

lemma registered_bucket_list:
  assumes bl: "bucket_list s b L" and fresh: "contexts s this = None"
  shows "bucket_list (registered this b a s) b (this # L)"
proof -
  let ?h0 = "(contexts s)(this \<mapsto> new_context a b)"
  from bl fresh have new: "this \<notin> set L" by (rule bucket_list_fresh)
  from bl have d: "dll (contexts s) None (head (m_wait_table s b)) L" by (simp add: bucket_list_def)
  have d0: "dll ?h0 None (head (m_wait_table s b)) L"
    using new by (intro dll_same [OF d]) auto
  have h0: "?h0 this = Some (new_context a b)" by simp
  have null: "ctx_prev (new_context a b) = None" by (simp add: new_context_def)
  have "dll (link_front ?h0 (head (m_wait_table s b)) this) None (Some this) (this # L)"
    using d0 h0 null new by (rule link_front_dll)
  then show ?thesis
    by (simp add: bucket_list_def registered_def store_head_def)
qed

lemma dtor_unregistered:
  assumes bl: "bucket_list s b L" and mem: "this \<in> set L"
    and c: "contexts s this = Some c" and pb: "parent_bucket c = b"
  shows "scoped_wait_context_dtor this s = Returned (unregistered this b s)"
proof -
  from mem obtain xs ys where L: "L = xs @ this # ys" by (auto dest: split_list)
  from bl have d: "dll (contexts s) None (head (m_wait_table s b)) L" by (simp add: bucket_list_def)
  from dll_distinct [OF d] L have nx: "this \<notin> set xs" by simp
  have hd: "(head (m_wait_table s b) = Some this) = (xs = [])"
    using dll_head [OF d] L nx by (cases xs) auto
  have "remove_wait_ctx b this s
          = Returned ((if xs = [] then store_head b (ctx_next c) s else s)
                       \<lparr>contexts := unlink (contexts s) this\<rparr>)"
    using bl [unfolded L] c by (rule remove_wait_ctx_unlink)
  with c pb hd show ?thesis
    by (simp add: scoped_wait_context_dtor_def unregistered_def store_head_def)
qed

lemma unregistered_bucket_list:
  assumes bl: "bucket_list s b L" and mem: "this \<in> set L"
  shows "bucket_list (unregistered this b s) b (remove1 this L)"
proof -
  from mem obtain xs ys where L: "L = xs @ this # ys" by (auto dest: split_list)
  from bl have d: "dll (contexts s) None (head (m_wait_table s b)) L" by (simp add: bucket_list_def)
  from dll_distinct [OF d] L have dist: "distinct (xs @ this # ys)" by simp
  then have nx: "this \<notin> set xs" "this \<notin> set ys" by auto
  from dll_live [OF d mem] obtain c where c: "contexts s this = Some c" by blast
  have hd: "(head (m_wait_table s b) = Some this) = (xs = [])"
    using dll_head [OF d] L nx by (cases xs) auto
  have r: "remove1 this L = xs @ ys"
    using L nx by (simp add: remove1_append)
  have "dll (unlink (contexts s) this) None
          (if xs = [] then ctx_next c else head (m_wait_table s b)) (xs @ ys)"
    using d [unfolded L] dist _ c by (rule unlink_dll) simp
  then have "dll ((unlink (contexts s) this)(this := None)) None
          (if xs = [] then ctx_next c else head (m_wait_table s b)) (xs @ ys)"
    by (rule dll_same) (use nx in auto)
  with c hd r show ?thesis
    by (cases "xs = []") (simp_all add: bucket_list_def unregistered_def store_head_def)
qed

lemma ctor_then_dtor:
  assumes bl: "bucket_list s b L" and fresh: "contexts s this = None"
    and ok: "\<not> cv_ctor_throws f"
  shows "seq (scoped_wait_context_ctor f this b a s) (scoped_wait_context_dtor this) = Returned s"
proof -
  let ?first = "head (m_wait_table s b)"
  define c0 where "c0 = new_context a b"
  define s0 where "s0 = s\<lparr>contexts := (contexts s)(this \<mapsto> c0)\<rparr>"
  define s1 where "s1 = store_head b (Some this) (s0\<lparr>contexts := link_front (contexts s0) ?first this\<rparr>)"
  from bl fresh have new: "this \<notin> set L" by (rule bucket_list_fresh)
  from bl have d: "dll (contexts s) None ?first L" by (simp add: bucket_list_def)
  have "dll (contexts s0) None ?first L"
    using new by (intro dll_same [OF d]) (auto simp: s0_def)
  then have bl0: "bucket_list s0 b L" by (simp add: bucket_list_def s0_def)
  have h0: "contexts s0 this = Some c0" by (simp add: s0_def)
  have null: "ctx_next c0 = None" "ctx_prev c0 = None" and pb: "parent_bucket c0 = b"
    by (simp_all add: c0_def new_context_def)
  have first0: "head (m_wait_table s0 b) = ?first" by (simp add: s0_def)
  have push: "push_front_wait_ctx b this s0 = Returned s1"
    using push_front_link [OF bl0 h0 null] by (simp add: s1_def first0)
  have ne: "?first \<noteq> Some this"
    using dll_head [OF d] new by (cases L) auto
  have h1: "contexts s1 this = Some (c0\<lparr>ctx_next := ?first\<rparr>)"
    using link_front_self [of "contexts s0" this c0 ?first] ne h0
    by (simp add: s1_def store_head_def)
  have "seq (push_front_wait_ctx b this s0) (remove_wait_ctx b this)
          = Returned (s0\<lparr>contexts := (contexts s0)(this \<mapsto> c0\<lparr>ctx_next := head (m_wait_table s0 b)\<rparr>)\<rparr>)"
    using bl0 h0 null new by (rule push_then_remove)
  then have rem: "remove_wait_ctx b this s1
          = Returned (s0\<lparr>contexts := (contexts s0)(this \<mapsto> c0\<lparr>ctx_next := ?first\<rparr>)\<rparr>)"
    by (simp add: push first0)
  have undo: "(contexts s)(this := None) = contexts s"
    using fresh by (intro ext) simp
  have "scoped_wait_context_dtor this s1 = Returned s"
    unfolding scoped_wait_context_dtor_def
    by (simp add: h1 pb rem) (simp add: s0_def undo)
  moreover have "scoped_wait_context_ctor f this b a s = Returned s1"
    using ok push by (simp add: scoped_wait_context_ctor_def s0_def c0_def)
  ultimately show ?thesis by simp
qed

subsection \<open>The history is not touched, and nothing is thrown\<close>

lemma remove_wait_ctx_history:
  "remove_wait_ctx b ctx (s\<lparr>history := hh\<rparr>)
     = map_outcome (history_update (\<lambda>_. hh)) (remove_wait_ctx b ctx s)"
  unfolding remove_wait_ctx_def
  by (auto simp: seq_def deref_def store_prev_def store_next_def store_head_def
      split: option.splits outcome.splits)

lemma dtor_history:
  "scoped_wait_context_dtor this (s\<lparr>history := hh\<rparr>)
     = map_outcome (history_update (\<lambda>_. hh)) (scoped_wait_context_dtor this s)"
  unfolding scoped_wait_context_dtor_def
  by (auto simp: remove_wait_ctx_history deref_def seq_def split: option.splits outcome.splits)

lemma dtor_after_registered:
  assumes "bucket_list s b L" and "contexts s this = None"
  shows "scoped_wait_context_dtor this ((registered this b a s)\<lparr>history := hh\<rparr>)
           = Returned (s\<lparr>history := hh\<rparr>)"
proof -
  have f: "\<not> cv_ctor_throws no_faults" by simp
  from ctor_then_dtor [OF assms f, of a] ctor_registered [OF assms f, of a]
  have "scoped_wait_context_dtor this (registered this b a s) = Returned s" by simp
  then show ?thesis by (simp add: dtor_history)
qed

lemma push_front_keeps_history:
  "push_front_wait_ctx b ctx s = Returned s' \<Longrightarrow> history s' = history s"
  unfolding push_front_wait_ctx_def
  by (auto simp: seq_def deref_def store_prev_def store_next_def store_head_def
      split: option.splits outcome.splits if_splits)

lemma ctor_keeps_history:
  "scoped_wait_context_ctor f this b a s = Returned s' \<Longrightarrow> history s' = history s"
  by (auto simp: scoped_wait_context_ctor_def split: if_splits dest: push_front_keeps_history)

lemma dtor_keeps_history:
  assumes "scoped_wait_context_dtor this s = Returned s'"
  shows "history s' = history s"
proof -
  have "scoped_wait_context_dtor this (s\<lparr>history := history s\<rparr>)
          = map_outcome (history_update (\<lambda>_. history s)) (scoped_wait_context_dtor this s)"
    by (rule dtor_history)
  with assms have "Returned s' = Returned (s'\<lparr>history := history s\<rparr>)" by simp
  then have "s' = s'\<lparr>history := history s\<rparr>" by simp
  then have "history s' = history (s'\<lparr>history := history s\<rparr>)" by simp
  then show ?thesis by simp
qed

lemma push_front_never_throws: "push_front_wait_ctx b ctx s \<noteq> Threw s'"
  unfolding push_front_wait_ctx_def
  by (auto simp: seq_def deref_def store_prev_def store_next_def
      split: option.splits outcome.splits if_splits)

lemma remove_never_throws: "remove_wait_ctx b ctx s \<noteq> Threw s'"
  unfolding remove_wait_ctx_def
  by (auto simp: seq_def deref_def store_prev_def store_next_def
      split: option.splits outcome.splits if_splits)

lemma dtor_never_throws: "scoped_wait_context_dtor this s \<noteq> Threw s'"
  unfolding scoped_wait_context_dtor_def
  using remove_never_throws
  by (auto simp: seq_def deref_def split: option.splits outcome.splits)

lemma ctor_throws:
  "scoped_wait_context_ctor f this b a s = Threw s' \<Longrightarrow> cv_ctor_throws f \<and> s' = s"
  using push_front_never_throws
  by (auto simp: scoped_wait_context_ctor_def split: if_splits)

lemma ctor_returned_no_fault:
  "scoped_wait_context_ctor f this b a s = Returned s' \<Longrightarrow> \<not> cv_ctor_throws f"
  by (auto simp: scoped_wait_context_ctor_def split: if_splits)

lemma dtor_returned_live:
  "scoped_wait_context_dtor this s = Returned s' \<Longrightarrow> \<exists>c. contexts s this = Some c"
  by (cases "contexts s this") (auto simp: scoped_wait_context_dtor_def)

subsection \<open>Removing undoes pushing\<close>

text \<open>
  C10. For a well-formed bucket list \<open>L\<close> and a context that is not in it and has both
  links null, \<^const>\<open>remove_wait_ctx\<close> right after \<^const>\<open>push_front_wait_ctx\<close> gives back
  the state it started from: the head, and every context other than the removed one
  (so also the \<^verbatim>\<open>prev\<close> pointer of the former head), are as before, and the bucket's
  list is \<open>L\<close> again. Only the removed context keeps a stale \<^verbatim>\<open>next\<close> pointer. With the
  context constructed and destroyed around the pair, as a wait that finds the value
  changed does, the state is exactly the one before.
\<close>

theorem push_then_remove_restores:
  assumes "bucket_list s b L" and "ctx \<notin> set L"
  shows "(\<forall>c. contexts s ctx = Some c \<and> ctx_next c = None \<and> ctx_prev c = None \<longrightarrow>
            seq (push_front_wait_ctx b ctx s) (remove_wait_ctx b ctx)
              = Returned (s\<lparr>contexts := (contexts s)(ctx \<mapsto> c\<lparr>ctx_next := head (m_wait_table s b)\<rparr>)\<rparr>)
            \<and> bucket_list (s\<lparr>contexts := (contexts s)(ctx \<mapsto> c\<lparr>ctx_next := head (m_wait_table s b)\<rparr>)\<rparr>) b L)
       \<and> (contexts s ctx = None \<and> \<not> cv_ctor_throws f \<longrightarrow>
            seq (scoped_wait_context_ctor f ctx b a s) (scoped_wait_context_dtor ctx) = Returned s)"
proof (intro conjI allI impI)
  fix c
  assume c: "contexts s ctx = Some c \<and> ctx_next c = None \<and> ctx_prev c = None"
  with assms show "seq (push_front_wait_ctx b ctx s) (remove_wait_ctx b ctx)
              = Returned (s\<lparr>contexts := (contexts s)(ctx \<mapsto> c\<lparr>ctx_next := head (m_wait_table s b)\<rparr>)\<rparr>)"
    by (intro push_then_remove) simp_all
  from assms(1) have d: "dll (contexts s) None (head (m_wait_table s b)) L"
    by (simp add: bucket_list_def)
  have "dll ((contexts s)(ctx \<mapsto> c\<lparr>ctx_next := head (m_wait_table s b)\<rparr>)) None
               (head (m_wait_table s b)) L"
    using assms(2) by (intro dll_same [OF d]) auto
  then show "bucket_list (s\<lparr>contexts := (contexts s)(ctx \<mapsto> c\<lparr>ctx_next := head (m_wait_table s b)\<rparr>)\<rparr>) b L"
    by (simp add: bucket_list_def)
next
  assume "contexts s ctx = None \<and> \<not> cv_ctor_throws f"
  with assms(1) show "seq (scoped_wait_context_ctor f ctx b a s) (scoped_wait_context_dtor ctx) = Returned s"
    by (intro ctor_then_dtor) simp_all
qed

theorem push_then_remove_restores_witness:
  "seq (push_front_wait_ctx 100 13
          (two_waiters\<lparr>contexts := (contexts two_waiters)(13 \<mapsto> new_context 100 100)\<rparr>))
       (remove_wait_ctx 100 13)
     = Returned (two_waiters\<lparr>contexts := (contexts two_waiters)(13 \<mapsto>
                   (new_context 100 100)\<lparr>ctx_next := Some 12\<rparr>)\<rparr>)
   \<and> seq (scoped_wait_context_ctor no_faults 13 100 100 two_waiters) (scoped_wait_context_dtor 13)
     = Returned two_waiters"
proof -
  let ?s = "two_waiters\<lparr>contexts := (contexts two_waiters)(13 \<mapsto> new_context 100 100)\<rparr>"
  have bl: "bucket_list ?s 100 [12, 11]"
    by (simp add: bucket_list_def two_waiters_def)
  have new: "(13::nat) \<notin> set [12, 11]" by simp
  have live: "contexts ?s 13 = Some (new_context 100 100)
      \<and> ctx_next (new_context 100 100) = None \<and> ctx_prev (new_context 100 100) = None"
    by (simp add: new_context_def)
  have hd: "head (m_wait_table ?s 100) = Some 12"
    by (simp add: two_waiters_def)
  have dead: "contexts two_waiters 13 = None \<and> \<not> cv_ctor_throws no_faults"
    by (simp add: two_waiters_def no_faults_def)
  from push_then_remove_restores [OF bl new, of no_faults 100] live hd
  have one: "seq (push_front_wait_ctx 100 13 ?s) (remove_wait_ctx 100 13)
     = Returned (two_waiters\<lparr>contexts := (contexts two_waiters)(13 \<mapsto>
                   (new_context 100 100)\<lparr>ctx_next := Some 12\<rparr>)\<rparr>)"
    by simp
  from push_then_remove_restores [OF bucket_list_two_waiters new, of no_faults 100] dead
  have two: "seq (scoped_wait_context_ctor no_faults 13 100 100 two_waiters) (scoped_wait_context_dtor 13)
     = Returned two_waiters"
    by simp
  from one two show ?thesis by simp
qed

section \<open>Notifying\<close>

lemma cv_notify_all_live:
  "contexts s q = Some c \<Longrightarrow> cv_notify_all q s = Returned (notified q s)"
  by (simp add: cv_notify_all_def notified_def)

lemma notified_links:
  "map_option links (contexts (notified q s) z) = map_option links (contexts s z)"
  by (simp add: notified_def links_def split: option.splits)

lemma notified_other: "z \<noteq> q \<Longrightarrow> contexts (notified q s) z = contexts s z"
  by (simp add: notified_def split: option.splits)

lemma notified_table [simp]: "m_wait_table (notified q s) = m_wait_table s"
  by (simp add: notified_def split: option.splits)

lemma dll_notified:
  "dll (contexts (notified q s)) before p xs = dll (contexts s) before p xs"
  by (intro dll_frame) (simp add: notified_links)

lemma notify_one_scan_dll:
  assumes "dll (contexts s) before p xs"
  shows "notify_one_scan a p s
           = Some (Returned (case find (watches s a) xs of None \<Rightarrow> s | Some q \<Rightarrow> notified q s))"
  using assms
proof (induction xs arbitrary: before p)
  case Nil
  then show ?case by (subst notify_one_scan.simps) simp
next
  case (Cons x xs)
  then obtain c where c: "p = Some x" "contexts s x = Some c"
      "dll (contexts s) (Some x) (ctx_next c) xs"
    by (auto split: option.splits)
  have w: "watches s a x = (storage_ptr c = a)"
    using c by (simp add: watches_def)
  show ?case
  proof (cases "storage_ptr c = a")
    case True
    with c w show ?thesis
      by (subst notify_one_scan.simps) (simp add: cv_notify_all_live)
  next
    case False
    with c w Cons.IH [OF c(3)] show ?thesis
      by (subst notify_one_scan.simps) simp
  qed
qed

lemma notified_all_Cons:
  assumes "contexts s x = Some c" and "x \<notin> set xs"
  shows "notified_all a xs (if storage_ptr c = a then notified x s else s) = notified_all a (x # xs) s"
proof -
  let ?s1 = "if storage_ptr c = a then notified x s else s"
  have w: "\<And>q. q \<noteq> x \<Longrightarrow> watches ?s1 a q = watches s a q"
    by (simp add: watches_def notified_other)
  have wx: "watches s a x = (storage_ptr c = a)"
    using assms(1) by (simp add: watches_def)
  have "contexts (notified_all a xs ?s1) q = contexts (notified_all a (x # xs) s) q" for q
  proof (cases "q = x")
    case True
    with assms wx show ?thesis
      by (simp add: notified_all_def notified_def)
  next
    case False
    with w [OF False] show ?thesis
      by (simp add: notified_all_def notified_other)
  qed
  then have "contexts (notified_all a xs ?s1) = contexts (notified_all a (x # xs) s)"
    by (rule ext)
  then show ?thesis
    by (simp add: notified_all_def notified_def assms(1))
qed

lemma notify_all_scan_dll:
  assumes "dll (contexts s) before p xs"
  shows "notify_all_scan a p s = Some (Returned (notified_all a xs s))"
  using assms
proof (induction xs arbitrary: s before p)
  case Nil
  then show ?case by (subst notify_all_scan.simps) (simp add: notified_all_def)
next
  case (Cons x xs)
  then obtain c where c: "p = Some x" "contexts s x = Some c"
      "dll (contexts s) (Some x) (ctx_next c) xs"
    by (auto split: option.splits)
  from dll_distinct [OF Cons.prems] have nx: "x \<notin> set xs" by simp
  let ?s1 = "if storage_ptr c = a then notified x s else s"
  have step: "(if storage_ptr c = a then cv_notify_all x s else Returned s) = Returned ?s1"
    using c by (simp add: cv_notify_all_live)
  obtain c1 where c1: "contexts ?s1 x = Some c1" "ctx_next c1 = ctx_next c"
    using c by (cases "storage_ptr c = a") (auto simp: notified_def)
  have "dll (contexts ?s1) (Some x) (ctx_next c) xs"
    using c(3) by (simp add: dll_notified)
  from Cons.IH [OF this]
  have "notify_all_scan a (ctx_next c) ?s1 = Some (Returned (notified_all a xs ?s1))" .
  also have "notified_all a xs ?s1 = notified_all a (x # xs) s"
    using c(2) nx by (rule notified_all_Cons)
  finally show ?case
    using c c1 by (subst notify_all_scan.simps) (simp add: step split del: if_split)
qed

lemma same_links_refl: "same_links s s"
  by (simp add: same_links_def)

lemma same_links_trans: "same_links s s1 \<Longrightarrow> same_links s1 s2 \<Longrightarrow> same_links s s2"
  by (simp add: same_links_def)

lemma same_links_notified: "same_links s (notified q s)"
  by (simp add: same_links_def notified_links)

lemma same_links_notified_all: "same_links s (notified_all a xs s)"
  by (auto simp: same_links_def notified_all_def links_def option.map_comp comp_def
      intro!: option.map_cong)

lemma same_links_bucket_list:
  "same_links s s' \<Longrightarrow> bucket_list s' b ys = bucket_list s b ys"
  unfolding bucket_list_def same_links_def
  using dll_frame [of ys "contexts s'" "contexts s" None "head (m_wait_table s b)"]
  by simp

lemma cv_notify_all_frame:
  "cv_notify_all p s = Returned s' \<Longrightarrow> same_links s s'"
  "cv_notify_all p s \<noteq> Threw s'"
  by (auto simp: cv_notify_all_def deref_def same_links_def links_def split: option.splits)

lemma notify_one_scan_frame:
  assumes "notify_one_scan a p s = Some r"
  shows "(\<forall>s'. r = Returned s' \<longrightarrow> same_links s s') \<and> (\<forall>s'. r \<noteq> Threw s')"
proof (rule notify_one_scan.raw_induct
    [where P = "\<lambda>a p s r. (\<forall>s'. r = Returned s' \<longrightarrow> same_links s s') \<and> (\<forall>s'. r \<noteq> Threw s')",
     OF _ assms], goal_cases)
  case (1 scan a cursor s r)
  show ?case
  proof (cases cursor)
    case None
    with 1(2) show ?thesis by (auto simp: same_links_refl)
  next
    case (Some p)
    show ?thesis
    proof (cases "contexts s p")
      case None
      with Some 1(2) show ?thesis by auto
    next
      case c: (Some c)
      show ?thesis
      proof (cases "storage_ptr c = a")
        case True
        with Some c 1(2) have "r = cv_notify_all p s" by simp
        then show ?thesis using cv_notify_all_frame [of p s] by auto
      next
        case False
        with Some c 1(2) have "scan a (ctx_next c) s = Some r" by simp
        then show ?thesis by (rule 1(1))
      qed
    qed
  qed
qed

lemma notify_all_scan_frame:
  assumes "notify_all_scan a p s = Some r"
  shows "(\<forall>s'. r = Returned s' \<longrightarrow> same_links s s') \<and> (\<forall>s'. r \<noteq> Threw s')"
proof (rule notify_all_scan.raw_induct
    [where P = "\<lambda>a p s r. (\<forall>s'. r = Returned s' \<longrightarrow> same_links s s') \<and> (\<forall>s'. r \<noteq> Threw s')",
     OF _ assms], goal_cases)
  case (1 scan a cursor s r)
  show ?case
  proof (cases cursor)
    case None
    with 1(2) show ?thesis by (auto simp: same_links_refl)
  next
    case (Some p)
    show ?thesis
    proof (cases "contexts s p")
      case None
      with Some 1(2) show ?thesis by auto
    next
      case c: (Some c)
      define s1 where "s1 = (if storage_ptr c = a then notified p s else s)"
      have step: "(if storage_ptr c = a then cv_notify_all p s else Returned s) = Returned s1"
        using c by (simp add: s1_def cv_notify_all_live)
      have l1: "same_links s s1"
        by (simp add: s1_def same_links_refl same_links_notified)
      show ?thesis
      proof (cases "contexts s1 p")
        case None
        with Some c 1(2) step show ?thesis by auto
      next
        case c1: (Some c1)
        with Some c 1(2) step have "scan a (ctx_next c1) s1 = Some r" by simp
        from 1(1) [OF this] l1 show ?thesis
          by (auto intro: same_links_trans)
      qed
    qed
  qed
qed

lemma notify_one_throws:
  assumes "notify_one hasher f a s = Some (Threw s')"
  shows "s' = s \<and> lock_throws f"
  using assms notify_one_scan_frame [of a "head (m_wait_table s (get_bucket_for hasher a))" s]
  by (auto simp: notify_one_def split: if_splits)

lemma notify_all_throws:
  assumes "notify_all hasher f a s = Some (Threw s')"
  shows "s' = s \<and> lock_throws f"
  using assms notify_all_scan_frame [of a "head (m_wait_table s (get_bucket_for hasher a))" s]
  by (auto simp: notify_all_def split: if_splits)

lemma registered_watches_self:
  assumes "bucket_list s b L" and "contexts s this = None"
  shows "watches (registered this b a' s) a this = (a' = a)"
  using registered_self [OF assms, of a'] by (simp add: watches_def new_context_def)

lemma registered_watches_other:
  assumes "z \<noteq> this"
  shows "watches (registered this b a' s) a z = watches s a z"
  using registered_payload [OF assms, of b a' s]
  by (cases "contexts (registered this b a' s) z"; cases "contexts s z")
     (auto simp: watches_def payload_def)

lemma notify_one_stops_at_match:
  assumes "\<not> lock_throws f" and "head (m_wait_table s (get_bucket_for hasher a)) = Some p"
    and "contexts s p = Some c" and "storage_ptr c = a"
  shows "notify_one hasher f a s = Some (Returned (notified p s))"
  using assms
  by (subst notify_one_def, subst notify_one_scan.simps) (simp add: cv_notify_all_live)

lemma notify_all_scan_returns:
  assumes "notify_all_scan a cur s = Some r"
  shows "\<not> (\<exists>p c. cur = Some p \<and> contexts s p = Some c \<and> ctx_next c = Some p)"
proof (rule notify_all_scan.raw_induct
    [where P = "\<lambda>a cur s r. \<not> (\<exists>p c. cur = Some p \<and> contexts s p = Some c \<and> ctx_next c = Some p)",
     OF _ assms], goal_cases)
  case (1 scan a cursor s r)
  show ?case
  proof
    assume "\<exists>p c. cursor = Some p \<and> contexts s p = Some c \<and> ctx_next c = Some p"
    then obtain p c where pc: "cursor = Some p" "contexts s p = Some c" "ctx_next c = Some p"
      by blast
    define s1 where "s1 = (if storage_ptr c = a then notified p s else s)"
    have step: "(if storage_ptr c = a then cv_notify_all p s else Returned s) = Returned s1"
      using pc by (simp add: s1_def cv_notify_all_live)
    obtain c1 where c1: "contexts s1 p = Some c1" "ctx_next c1 = Some p"
      using pc by (cases "storage_ptr c = a") (auto simp: s1_def notified_def)
    from 1(2) pc step c1 have "scan a (Some p) s1 = Some r" by simp
    from 1(1) [OF this] c1 show False by blast
  qed
qed

lemma notify_all_never_returns_on_a_loop:
  assumes "\<not> lock_throws f" and "head (m_wait_table s (get_bucket_for hasher a)) = Some p"
    and "contexts s p = Some c" and "ctx_next c = Some p"
  shows "notify_all hasher f a s = None"
proof (cases "notify_all hasher f a s")
  case None
  then show ?thesis .
next
  case (Some r)
  with assms(1,2) have "notify_all_scan a (Some p) s = Some r"
    by (simp add: notify_all_def)
  from notify_all_scan_returns [OF this] assms(3,4) show ?thesis by blast
qed

subsection \<open>One waiter, the newest first\<close>

text \<open>
  C3. On a well-formed bucket \<^const>\<open>notify_one\<close> returns, and the state it returns is
  the state it was called in with one more notification on the condition variable of the
  first context of the list, from the head on, whose stored address is the given one;
  no other context is touched, and nothing at all when no context matches. Registration
  inserts in front: after a context \<open>c\<close> has been registered in this bucket the list is
  \<open>c # xs\<close>, and the next \<^const>\<open>notify_one\<close> signals \<open>c\<close> if \<open>c\<close> watches the address,
  and otherwise the context it would have signalled before. So the context signalled is
  the most recently registered one that matches. The scan stops at the match: when the
  head of the bucket matches, \<^const>\<open>notify_one\<close> returns whatever follows the head, on
  any state.
\<close>

theorem notify_one_signals_first_match:
  assumes "bucket_list s (get_bucket_for hasher a) xs" and "\<not> lock_throws f"
  shows "notify_one hasher f a s
           = Some (Returned (case find (watches s a) xs of None \<Rightarrow> s | Some q \<Rightarrow> notified q s))
       \<and> (\<forall>c a'. contexts s c = None \<and> \<not> cv_ctor_throws f
              \<and> get_bucket_for hasher a' = get_bucket_for hasher a \<longrightarrow>
            scoped_wait_context_ctor f c (get_bucket_for hasher a') a' s
              = Returned (registered c (get_bucket_for hasher a) a' s)
            \<and> bucket_list (registered c (get_bucket_for hasher a) a' s) (get_bucket_for hasher a) (c # xs)
            \<and> notify_one hasher f a (registered c (get_bucket_for hasher a) a' s)
                = Some (Returned
                    (if a' = a then notified c (registered c (get_bucket_for hasher a) a' s)
                     else (case find (watches s a) xs of
                             None \<Rightarrow> registered c (get_bucket_for hasher a) a' s
                           | Some q \<Rightarrow> notified q (registered c (get_bucket_for hasher a) a' s)))))
       \<and> (\<forall>s' p c. head (m_wait_table s' (get_bucket_for hasher a)) = Some p
              \<and> contexts s' p = Some c \<and> storage_ptr c = a \<longrightarrow>
            notify_one hasher f a s' = Some (Returned (notified p s')))"
proof (intro conjI allI impI)
  let ?b = "get_bucket_for hasher a"
  from assms(1) have d: "dll (contexts s) None (head (m_wait_table s ?b)) xs"
    by (simp add: bucket_list_def)
  from notify_one_scan_dll [OF d] assms(2)
  show "notify_one hasher f a s
           = Some (Returned (case find (watches s a) xs of None \<Rightarrow> s | Some q \<Rightarrow> notified q s))"
    by (simp add: notify_one_def)
  fix c a'
  assume h: "contexts s c = None \<and> \<not> cv_ctor_throws f \<and> get_bucket_for hasher a' = ?b"
  let ?s1 = "registered c ?b a' s"
  from h assms(1) show "scoped_wait_context_ctor f c (get_bucket_for hasher a') a' s = Returned ?s1"
    by (simp add: ctor_registered)
  from h assms(1) show bl1: "bucket_list ?s1 ?b (c # xs)"
    by (simp add: registered_bucket_list)
  then have d1: "dll (contexts ?s1) None (head (m_wait_table ?s1 ?b)) (c # xs)"
    by (simp add: bucket_list_def)
  from h assms(1) have new: "c \<notin> set xs" by (simp add: bucket_list_fresh)
  have w: "watches ?s1 a c = (a' = a)"
    using registered_watches_self [OF assms(1)] h by simp
  have "\<And>x. x \<in> set xs \<Longrightarrow> watches ?s1 a x = watches s a x"
    using new by (intro registered_watches_other) auto
  then have "find (watches ?s1 a) xs = find (watches s a) xs"
    by (intro find_cong) simp_all
  with w have "find (watches ?s1 a) (c # xs) = (if a' = a then Some c else find (watches s a) xs)"
    by simp
  with notify_one_scan_dll [OF d1, of a] assms(2)
  show "notify_one hasher f a ?s1
                = Some (Returned
                    (if a' = a then notified c ?s1
                     else (case find (watches s a) xs of
                             None \<Rightarrow> ?s1
                           | Some q \<Rightarrow> notified q ?s1)))"
    by (simp add: notify_one_def)
next
  fix s' :: state and p c
  assume "head (m_wait_table s' (get_bucket_for hasher a)) = Some p
              \<and> contexts s' p = Some c \<and> storage_ptr c = a"
  then have h: "head (m_wait_table s' (get_bucket_for hasher a)) = Some p"
    and c: "contexts s' p = Some c" and m: "storage_ptr c = a"
    by blast+
  from assms(2) h c m show "notify_one hasher f a s' = Some (Returned (notified p s'))"
    by (rule notify_one_stops_at_match)
qed

theorem notify_one_signals_first_match_witness:
  "notify_one (\<lambda>a. a) no_faults 100 two_waiters = Some (Returned (notified 11 two_waiters))
   \<and> bucket_list (registered 13 100 100 two_waiters) 100 [13, 12, 11]
   \<and> notify_one (\<lambda>a. a) no_faults 100 (registered 13 100 100 two_waiters)
       = Some (Returned (notified 13 (registered 13 100 100 two_waiters)))
   \<and> notify_one (\<lambda>a. a) no_faults 100 (registered 13 100 357 two_waiters)
       = Some (Returned (notified 11 (registered 13 100 357 two_waiters)))
   \<and> notify_one (\<lambda>a. a) no_faults 100 looping_bucket
       = Some (Returned (notified 11 looping_bucket))"
proof -
  have bl: "bucket_list two_waiters (get_bucket_for (\<lambda>a. a) 100) [12, 11]"
    by (simp add: bucket_100 bucket_list_two_waiters)
  note t = notify_one_signals_first_match [OF bl no_faults_simps(1)]
  from t have one: "notify_one (\<lambda>a. a) no_faults 100 two_waiters
      = Some (Returned (notified 11 two_waiters))"
    by simp
  from t have new: "\<And>c a'. contexts two_waiters c = None \<and> \<not> cv_ctor_throws no_faults
              \<and> get_bucket_for (\<lambda>a. a) a' = get_bucket_for (\<lambda>a. a) 100 \<Longrightarrow>
            bucket_list (registered c (get_bucket_for (\<lambda>a. a) 100) a' two_waiters)
              (get_bucket_for (\<lambda>a. a) 100) [c, 12, 11]
            \<and> notify_one (\<lambda>a. a) no_faults 100 (registered c (get_bucket_for (\<lambda>a. a) 100) a' two_waiters)
                = Some (Returned
                    (if a' = 100 then notified c (registered c (get_bucket_for (\<lambda>a. a) 100) a' two_waiters)
                     else (case find (watches two_waiters 100) [12, 11] of
                             None \<Rightarrow> registered c (get_bucket_for (\<lambda>a. a) 100) a' two_waiters
                           | Some q \<Rightarrow> notified q (registered c (get_bucket_for (\<lambda>a. a) 100) a' two_waiters))))"
    by blast
  have "head (m_wait_table looping_bucket (get_bucket_for (\<lambda>a. a) 100)) = Some 11
      \<and> contexts looping_bucket 11 = Some \<lparr>storage_ptr = 100, ctx_next = Some 11,
            ctx_prev = None, cv = 0, parent_bucket = 100\<rparr>
      \<and> storage_ptr \<lparr>storage_ptr = 100, ctx_next = Some 11,
            ctx_prev = None, cv = 0, parent_bucket = 100\<rparr> = 100"
    by (simp add: bucket_100 looping_bucket_def)
  with t have loop: "notify_one (\<lambda>a. a) no_faults 100 looping_bucket
       = Some (Returned (notified 11 looping_bucket))"
    by blast
  from new [of 13 100] new [of 13 357] one loop show ?thesis
    by (simp add: bucket_100 bucket_357)
qed

subsection \<open>All waiters of the address, and no others\<close>

text \<open>
  C4. On a well-formed bucket \<^const>\<open>notify_all\<close> returns, having gone through the whole
  list: the condition variable of a context has received one more notification if the
  context is in the bucket and its stored address is the given one, and every other
  context is exactly as before. A context of another address in the same bucket is not
  woken.
\<close>

theorem notify_all_signals_every_match:
  assumes "bucket_list s (get_bucket_for hasher a) xs" and "\<not> lock_throws f"
  shows "notify_all hasher f a s = Some (Returned (notified_all a xs s))
       \<and> (\<forall>q. contexts (notified_all a xs s) q
                = (if q \<in> set xs \<and> watches s a q
                   then map_option (\<lambda>c. c\<lparr>cv := cv c + 1\<rparr>) (contexts s q)
                   else contexts s q))"
proof -
  from assms(1) have "dll (contexts s) None (head (m_wait_table s (get_bucket_for hasher a))) xs"
    by (simp add: bucket_list_def)
  from notify_all_scan_dll [OF this] assms(2)
  show ?thesis by (simp add: notify_all_def notified_all_def)
qed

theorem notify_all_signals_every_match_witness:
  "notify_all (\<lambda>a. a) no_faults 100 two_waiters = Some (Returned (notified_all 100 [12, 11] two_waiters))
   \<and> map_option cv (contexts (notified_all 100 [12, 11] two_waiters) 11) = Some 1
   \<and> map_option cv (contexts (notified_all 100 [12, 11] two_waiters) 12) = Some 0"
proof -
  have bl: "bucket_list two_waiters (get_bucket_for (\<lambda>a. a) 100) [12, 11]"
    by (simp add: bucket_100 bucket_list_two_waiters)
  note t = notify_all_signals_every_match [OF bl no_faults_simps(1)]
  from t have "notify_all (\<lambda>a. a) no_faults 100 two_waiters
      = Some (Returned (notified_all 100 [12, 11] two_waiters))" by simp
  moreover from t have "contexts (notified_all 100 [12, 11] two_waiters) 11
      = map_option (\<lambda>c. c\<lparr>cv := cv c + 1\<rparr>) (contexts two_waiters 11)"
    by simp
  moreover from t have "contexts (notified_all 100 [12, 11] two_waiters) 12 = contexts two_waiters 12"
    by simp
  ultimately show ?thesis
    by (simp add: two_waiters_contexts)
qed

text \<open>
  That \<^const>\<open>notify_all\<close> has no early exit shows on a bucket that is not a list: where
  \<^const>\<open>notify_one\<close> returns at the match, \<^const>\<open>notify_all\<close> goes round for ever.
\<close>

lemma notify_all_on_looping_bucket:
  "notify_all (\<lambda>a. a) no_faults 100 looping_bucket = None"
proof -
  have h: "head (m_wait_table looping_bucket (get_bucket_for (\<lambda>a. a) 100)) = Some 11"
    by (simp add: bucket_100 looping_bucket_def)
  have c: "contexts looping_bucket 11 = Some \<lparr>storage_ptr = 100, ctx_next = Some 11,
      ctx_prev = None, cv = 0, parent_bucket = 100\<rparr>"
    by (simp add: looping_bucket_def)
  show ?thesis
    using no_faults_simps(1) h c by (rule notify_all_never_returns_on_a_loop) simp
qed

subsection \<open>The lists stay as they are\<close>

text \<open>
  C9. Whenever \<^const>\<open>notify_one\<close> or \<^const>\<open>notify_all\<close> returns (or throws, at the
  lock), on any state whatever, the head of every bucket and both links of every context
  are as before; so every bucket has the list it had. On a well-formed bucket both do
  return. Unlinking is the destructor's work: run for a context of a bucket, it takes
  exactly that context out of the bucket's list.
\<close>

theorem notify_keeps_links:
  "(\<forall>s'. notify_one hasher f a s = Some (Returned s') \<or> notify_one hasher f a s = Some (Threw s')
          \<longrightarrow> same_links s s')
   \<and> (\<forall>s'. notify_all hasher f a s = Some (Returned s') \<or> notify_all hasher f a s = Some (Threw s')
          \<longrightarrow> same_links s s')
   \<and> (\<forall>xs. bucket_list s (get_bucket_for hasher a) xs \<and> \<not> lock_throws f \<longrightarrow>
          (\<exists>s'. notify_one hasher f a s = Some (Returned s'))
          \<and> (\<exists>s'. notify_all hasher f a s = Some (Returned s')))
   \<and> (\<forall>s' b ys. same_links s s' \<longrightarrow> bucket_list s' b ys = bucket_list s b ys)
   \<and> (\<forall>b xs this c. bucket_list s b xs \<and> this \<in> set xs \<and> contexts s this = Some c
          \<and> parent_bucket c = b \<longrightarrow>
          (\<exists>s'. scoped_wait_context_dtor this s = Returned s'
                \<and> bucket_list s' b (remove1 this xs) \<and> contexts s' this = None))"
proof (intro conjI allI impI)
  fix s'
  assume "notify_one hasher f a s = Some (Returned s') \<or> notify_one hasher f a s = Some (Threw s')"
  then show "same_links s s'"
    using notify_one_scan_frame [of a "head (m_wait_table s (get_bucket_for hasher a))" s]
    by (auto simp: notify_one_def same_links_refl split: if_splits)
next
  fix s'
  assume "notify_all hasher f a s = Some (Returned s') \<or> notify_all hasher f a s = Some (Threw s')"
  then show "same_links s s'"
    using notify_all_scan_frame [of a "head (m_wait_table s (get_bucket_for hasher a))" s]
    by (auto simp: notify_all_def same_links_refl split: if_splits)
next
  fix xs
  assume h: "bucket_list s (get_bucket_for hasher a) xs \<and> \<not> lock_throws f"
  then have d: "dll (contexts s) None (head (m_wait_table s (get_bucket_for hasher a))) xs"
    by (simp add: bucket_list_def)
  from notify_one_scan_dll [OF d, of a] h
  show "\<exists>s'. notify_one hasher f a s = Some (Returned s')"
    by (simp add: notify_one_def)
  from notify_all_scan_dll [OF d, of a] h
  show "\<exists>s'. notify_all hasher f a s = Some (Returned s')"
    by (simp add: notify_all_def)
next
  fix s' b ys
  assume "same_links s s'"
  then show "bucket_list s' b ys = bucket_list s b ys"
    by (rule same_links_bucket_list)
next
  fix b xs this c
  assume h: "bucket_list s b xs \<and> this \<in> set xs \<and> contexts s this = Some c \<and> parent_bucket c = b"
  then have bl: "bucket_list s b xs" and mem: "this \<in> set xs"
    and c: "contexts s this = Some c" and pb: "parent_bucket c = b"
    by simp_all
  have "scoped_wait_context_dtor this s = Returned (unregistered this b s)"
    using bl mem c pb by (rule dtor_unregistered)
  moreover have "bucket_list (unregistered this b s) b (remove1 this xs)"
    using bl mem by (rule unregistered_bucket_list)
  ultimately show "\<exists>s'. scoped_wait_context_dtor this s = Returned s'
                \<and> bucket_list s' b (remove1 this xs) \<and> contexts s' this = None"
    by simp
qed

theorem notify_keeps_links_witness:
  "same_links two_waiters (notified 11 two_waiters)
   \<and> same_links two_waiters (notified_all 100 [12, 11] two_waiters)
   \<and> (\<exists>s'. notify_one (\<lambda>a. a) no_faults 100 two_waiters = Some (Returned s'))
   \<and> (\<exists>s'. notify_all (\<lambda>a. a) no_faults 100 two_waiters = Some (Returned s'))
   \<and> bucket_list (notified 11 two_waiters) 100 [12, 11]
   \<and> (\<exists>s'. scoped_wait_context_dtor 12 two_waiters = Returned s'
          \<and> bucket_list s' 100 [11] \<and> contexts s' 12 = None)"
proof -
  have d: "dll (contexts two_waiters) None (head (m_wait_table two_waiters (get_bucket_for (\<lambda>a. a) 100))) [12, 11]"
    using bucket_list_two_waiters by (simp add: bucket_100 bucket_list_def)
  have one: "notify_one (\<lambda>a. a) no_faults 100 two_waiters = Some (Returned (notified 11 two_waiters))"
    using notify_one_scan_dll [OF d, of 100] by (simp add: notify_one_def)
  have all: "notify_all (\<lambda>a. a) no_faults 100 two_waiters
      = Some (Returned (notified_all 100 [12, 11] two_waiters))"
    using notify_all_scan_dll [OF d, of 100] by (simp add: notify_all_def)
  have bl: "bucket_list two_waiters (get_bucket_for (\<lambda>a. a) 100) [12, 11] \<and> \<not> lock_throws no_faults"
    by (simp add: bucket_100 bucket_list_two_waiters)
  have dt: "bucket_list two_waiters 100 [12, 11] \<and> 12 \<in> set [12, 11::nat]
      \<and> contexts two_waiters 12 = Some \<lparr>storage_ptr = 357, ctx_next = Some 11, ctx_prev = None, cv = 0,
                          parent_bucket = 100\<rparr>
      \<and> parent_bucket \<lparr>storage_ptr = 357, ctx_next = Some 11, ctx_prev = None, cv = 0,
                          parent_bucket = 100\<rparr> = 100"
    by (simp add: bucket_list_two_waiters two_waiters_contexts)
  note t = notify_keeps_links [of "\<lambda>a. a" no_faults 100 two_waiters]
  from t one have l1: "same_links two_waiters (notified 11 two_waiters)" by blast
  from t all have l2: "same_links two_waiters (notified_all 100 [12, 11] two_waiters)" by blast
  from t bl have r: "(\<exists>s'. notify_one (\<lambda>a. a) no_faults 100 two_waiters = Some (Returned s'))
          \<and> (\<exists>s'. notify_all (\<lambda>a. a) no_faults 100 two_waiters = Some (Returned s'))"
    by blast
  from t l1 have b1: "bucket_list (notified 11 two_waiters) 100 [12, 11] = bucket_list two_waiters 100 [12, 11]"
    by blast
  from t dt have "\<exists>s'. scoped_wait_context_dtor 12 two_waiters = Returned s'
          \<and> bucket_list s' 100 (remove1 12 [12, 11]) \<and> contexts s' 12 = None"
    by blast
  with l1 l2 r b1 show ?thesis by (simp add: bucket_list_two_waiters)
qed

section \<open>Waiting\<close>

lemma memcmp_bytes_zero:
  "length xs = length ys \<Longrightarrow> (memcmp_bytes xs ys = 0) = (xs = ys)"
  by (induction xs ys rule: list_induct2) (auto simp: word_uint_eq_iff)

lemma memcmp_differs:
  assumes "n \<le> length comparand" and "bytes_at m a n \<noteq> take n comparand"
  shows "\<exists>r. memcmp m a comparand n = Some r \<and> r \<noteq> 0"
proof -
  have "length (bytes_at m a n) = length (take n comparand)"
    using assms(1) by (simp add: bytes_at_def)
  with assms show ?thesis
    by (simp add: memcmp_def memcmp_bytes_zero)
qed

lemma memcmp_equal:
  assumes "n \<le> length comparand" and "bytes_at m a n = take n comparand"
  shows "memcmp m a comparand n = Some 0"
proof -
  have "length (bytes_at m a n) = length (take n comparand)"
    using assms(1) by (simp add: bytes_at_def)
  with assms show ?thesis
    by (simp add: memcmp_def memcmp_bytes_zero)
qed

lemma wait_when_faulty:
  assumes "lock_throws f \<or> cv_ctor_throws f"
  shows "wait hasher f sched c a comparand n s = Some (Threw s)"
    and "wait_for hasher f sched' c a comparand n t s = Threw s"
  using assms
  by (auto simp: wait_def wait_for_def scoped_wait_context_ctor_def)

lemma wait_throws:
  assumes "wait hasher f sched c a comparand n s = Some (Threw s')"
  shows "s' = s \<and> (lock_throws f \<or> cv_ctor_throws f)"
proof (cases "lock_throws f")
  case True
  with assms show ?thesis by (simp add: wait_def)
next
  case False
  show ?thesis
  proof (cases "scoped_wait_context_ctor f c (get_bucket_for hasher a) a s")
    case (Returned s1)
    with False assms dtor_never_throws show ?thesis
      by (auto simp: wait_def Let_def split: option.splits if_splits)
  next
    case (Threw s1)
    with False assms ctor_throws [OF Threw] show ?thesis
      by (simp add: wait_def)
  next
    case (Aborted e)
    with False assms show ?thesis by (simp add: wait_def)
  qed
qed

lemma wait_for_throws:
  assumes "wait_for hasher f sched c a comparand n t s = Threw s'"
  shows "s' = s \<and> (lock_throws f \<or> cv_ctor_throws f)"
proof (cases "lock_throws f")
  case True
  with assms show ?thesis by (simp add: wait_for_def)
next
  case False
  show ?thesis
  proof (cases "scoped_wait_context_ctor f c (get_bucket_for hasher a) a s")
    case (Returned s1)
    with False assms dtor_never_throws show ?thesis
      by (auto simp: wait_for_def Let_def split: option.splits if_splits)
  next
    case (Threw s1)
    with False assms ctor_throws [OF Threw] show ?thesis
      by (simp add: wait_for_def)
  next
    case (Aborted e)
    with False assms show ?thesis by (simp add: wait_for_def)
  qed
qed

lemma catch_all_never_throws: "catch_all r \<noteq> Threw s'"
  by (simp add: catch_all_def split: outcome.splits)

subsection \<open>The value has changed already\<close>

text \<open>
  C1. If the \<open>n\<close> bytes at the watched address differ from the first \<open>n\<close> bytes of the
  comparand when \<^const>\<open>wait\<close> (or the bounded \<^const>\<open>wait_for\<close>) compares them, the call
  returns at once: the state it returns is the state it was called in plus the one
  comparison in the thread's history. There is no sleep in the history and the result
  does not depend on the scheduler (it is the same for a thread that would never be
  woken), so the call did not block; the context is no longer alive and the bucket and
  all links are as before the call, so the context it registered is unregistered.
\<close>

theorem wait_returns_at_once:
  assumes "\<not> lock_throws f" and "\<not> cv_ctor_throws f"
    and "contexts s c = None"
    and "bucket_list s (get_bucket_for hasher a) L"
    and "n \<le> length comparand"
    and "bytes_at (memory s) a n \<noteq> take n comparand"
  shows "wait hasher f sched c a comparand n s = Some (Returned (record_event (compared c a n) s))
       \<and> wait_for hasher f sched' c a comparand n t s = Returned (record_event (compared c a n) s)"
proof -
  let ?b = "get_bucket_for hasher a"
  let ?e = "compared c a n"
  have ctor: "scoped_wait_context_ctor f c ?b a s = Returned (registered c ?b a s)"
    using assms(4) assms(3) assms(2) by (rule ctor_registered)
  from memcmp_differs [OF assms(5) assms(6)] obtain r
    where r: "memcmp (memory s) a comparand n = Some r" "r \<noteq> 0" by blast
  have "scoped_wait_context_dtor c (record_event ?e (registered c ?b a s))
          = Returned (record_event ?e s)"
    using dtor_after_registered [OF assms(4) assms(3), where a = a and hh = "history s @ [?e]"]
    by (simp add: record_event_def)
  with assms(1) ctor r show ?thesis
    by (simp add: wait_def wait_for_def)
qed

theorem wait_returns_at_once_witness:
  "wait (\<lambda>a. a) no_faults (\<lambda>s. None) 13 100 (bytes_of_int32 1) 4 two_waiters
     = Some (Returned (record_event (compared 13 100 4) two_waiters))
   \<and> wait_for (\<lambda>a. a) no_faults (\<lambda>s. s) 13 100 (bytes_of_int32 1) 4 50 two_waiters
     = Returned (record_event (compared 13 100 4) two_waiters)"
proof -
  have b: "get_bucket_for (\<lambda>a. a) 100 = 100"
    by (simp add: get_bucket_for_def k_wait_table_size_def)
  have "bytes_at (memory two_waiters) 100 4 \<noteq> take 4 (bytes_of_int32 1)"
    by (simp add: bytes_at_4 bytes_of_int32_def two_waiters_def)
  moreover have "(4::nat) \<le> length (bytes_of_int32 1)"
    by (simp add: bytes_of_int32_def)
  moreover have "contexts two_waiters 13 = None"
    by (simp add: two_waiters_def)
  moreover have "bucket_list two_waiters (get_bucket_for (\<lambda>a. a) 100) [12, 11]"
    by (simp add: b bucket_list_two_waiters)
  moreover have "\<not> lock_throws no_faults" "\<not> cv_ctor_throws no_faults"
    by (simp_all add: no_faults_def)
  ultimately show ?thesis
    using wait_returns_at_once [of no_faults two_waiters 13 "\<lambda>a. a" 100 "[12, 11]" 4
        "bytes_of_int32 1" "\<lambda>s. None" "\<lambda>s. s" 50]
    by simp
qed

subsection \<open>One sleep per wait\<close>

text \<open>
  C6. A call of \<^const>\<open>wait\<close> or \<^const>\<open>wait_for\<close> that returns has added to the thread's
  history either the one comparison, or the one comparison followed by one wait on the
  condition variable of its context, and nothing else: it has slept at most once, and has
  not compared again after the sleep. When the bytes equal the comparand the call is the
  scheduler applied once to the state with the context registered, followed by the
  destructor; whatever state the thread wakes up in (whatever the memory then holds, and
  whether a notification, chance or the timeout woke it), the call unregisters and
  returns.
\<close>

theorem wait_sleeps_at_most_once:
  "(\<forall>s'. wait hasher f sched c a comparand n s = Some (Returned s') \<longrightarrow>
        history s' = history s @ [compared c a n]
        \<or> history s' = history s @ [compared c a n, slept c])
   \<and> (\<forall>s'. wait_for hasher f sched' c a comparand n t s = Returned s' \<longrightarrow>
        history s' = history s @ [compared c a n]
        \<or> history s' = history s @ [compared c a n, slept_for c t])
   \<and> (\<not> lock_throws f \<and> \<not> cv_ctor_throws f \<and> contexts s c = None
        \<and> bucket_list s (get_bucket_for hasher a) L
        \<and> n \<le> length comparand \<and> bytes_at (memory s) a n = take n comparand \<longrightarrow>
        wait hasher f sched c a comparand n s
          = (case sched (record_event (compared c a n) (registered c (get_bucket_for hasher a) a s)) of
               None \<Rightarrow> None
             | Some s3 \<Rightarrow>
                 Some (scoped_wait_context_dtor c
                         (s3\<lparr>history := history s @ [compared c a n, slept c]\<rparr>)))
        \<and> wait_for hasher f sched' c a comparand n t s
          = scoped_wait_context_dtor c
              ((sched' (record_event (compared c a n) (registered c (get_bucket_for hasher a) a s)))
                 \<lparr>history := history s @ [compared c a n, slept_for c t]\<rparr>))"
proof (intro conjI allI impI)
  fix s'
  assume w: "wait hasher f sched c a comparand n s = Some (Returned s')"
  then have nl: "\<not> lock_throws f" by (auto simp: wait_def split: if_splits)
  from w nl obtain s1 where s1: "scoped_wait_context_ctor f c (get_bucket_for hasher a) a s = Returned s1"
    by (cases "scoped_wait_context_ctor f c (get_bucket_for hasher a) a s") (auto simp: wait_def)
  from ctor_keeps_history [OF s1] have h1: "history s1 = history s" .
  from w nl s1 obtain r where r: "memcmp (memory s1) a comparand n = Some r"
    by (cases "memcmp (memory s1) a comparand n") (auto simp: wait_def)
  show "history s' = history s @ [compared c a n]
        \<or> history s' = history s @ [compared c a n, slept c]"
  proof (cases "r = 0")
    case False
    with w nl s1 r have "scoped_wait_context_dtor c (record_event (compared c a n) s1) = Returned s'"
      by (simp add: wait_def)
    from dtor_keeps_history [OF this] h1 show ?thesis
      by (simp add: record_event_def)
  next
    case True
    with w nl s1 r obtain s3 where s3: "cv_wait c sched (record_event (compared c a n) s1) = Some s3"
        "scoped_wait_context_dtor c s3 = Returned s'"
      by (cases "cv_wait c sched (record_event (compared c a n) s1)") (auto simp: wait_def)
    from s3(1) h1 have "history s3 = history s @ [compared c a n, slept c]"
      by (auto simp: cv_wait_def record_event_def split: option.splits)
    with dtor_keeps_history [OF s3(2)] show ?thesis by simp
  qed
next
  fix s'
  assume w: "wait_for hasher f sched' c a comparand n t s = Returned s'"
  then have nl: "\<not> lock_throws f" by (auto simp: wait_for_def split: if_splits)
  from w nl obtain s1 where s1: "scoped_wait_context_ctor f c (get_bucket_for hasher a) a s = Returned s1"
    by (cases "scoped_wait_context_ctor f c (get_bucket_for hasher a) a s") (auto simp: wait_for_def)
  from ctor_keeps_history [OF s1] have h1: "history s1 = history s" .
  from w nl s1 obtain r where r: "memcmp (memory s1) a comparand n = Some r"
    by (cases "memcmp (memory s1) a comparand n") (auto simp: wait_for_def)
  show "history s' = history s @ [compared c a n]
        \<or> history s' = history s @ [compared c a n, slept_for c t]"
  proof (cases "r = 0")
    case False
    with w nl s1 r have "scoped_wait_context_dtor c (record_event (compared c a n) s1) = Returned s'"
      by (simp add: wait_for_def)
    from dtor_keeps_history [OF this] h1 show ?thesis
      by (simp add: record_event_def)
  next
    case True
    with w nl s1 r have "scoped_wait_context_dtor c
        (cv_wait_for c t sched' (record_event (compared c a n) s1)) = Returned s'"
      by (simp add: wait_for_def)
    from dtor_keeps_history [OF this] h1 show ?thesis
      by (simp add: cv_wait_for_def record_event_def)
  qed
next
  assume h: "\<not> lock_throws f \<and> \<not> cv_ctor_throws f \<and> contexts s c = None
        \<and> bucket_list s (get_bucket_for hasher a) L
        \<and> n \<le> length comparand \<and> bytes_at (memory s) a n = take n comparand"
  let ?b = "get_bucket_for hasher a"
  from h have ctor: "scoped_wait_context_ctor f c ?b a s = Returned (registered c ?b a s)"
    by (intro ctor_registered [of s ?b L]) simp_all
  from h have m: "memcmp (memory (registered c ?b a s)) a comparand n = Some 0"
    by (simp add: memcmp_equal)
  from h ctor m show "wait hasher f sched c a comparand n s
          = (case sched (record_event (compared c a n) (registered c ?b a s)) of
               None \<Rightarrow> None
             | Some s3 \<Rightarrow>
                 Some (scoped_wait_context_dtor c
                         (s3\<lparr>history := history s @ [compared c a n, slept c]\<rparr>)))"
    by (simp add: wait_def cv_wait_def record_event_def split: option.splits)
  from h ctor m show "wait_for hasher f sched' c a comparand n t s
          = scoped_wait_context_dtor c
              ((sched' (record_event (compared c a n) (registered c ?b a s)))
                 \<lparr>history := history s @ [compared c a n, slept_for c t]\<rparr>)"
    by (simp add: wait_for_def cv_wait_for_def record_event_def)
qed

theorem wait_sleeps_at_most_once_witness:
  "wait (\<lambda>a. a) no_faults (\<lambda>s. Some s) 13 100 (bytes_of_int32 0) 4 two_waiters
     = Some (Returned (two_waiters\<lparr>history := [compared 13 100 4, slept 13]\<rparr>))
   \<and> wait_for (\<lambda>a. a) no_faults (\<lambda>s. s) 13 100 (bytes_of_int32 0) 4 50 two_waiters
     = Returned (two_waiters\<lparr>history := [compared 13 100 4, slept_for 13 50]\<rparr>)"
proof -
  have h: "\<not> lock_throws no_faults \<and> \<not> cv_ctor_throws no_faults \<and> contexts two_waiters 13 = None
        \<and> bucket_list two_waiters (get_bucket_for (\<lambda>a. a) 100) [12, 11]
        \<and> 4 \<le> length (bytes_of_int32 0)
        \<and> bytes_at (memory two_waiters) 100 4 = take 4 (bytes_of_int32 0)"
    by (simp add: bucket_100 bucket_list_two_waiters bytes_of_int32_0 bytes_at_4)
       (simp add: two_waiters_def)
  have e: "history two_waiters = []" by (simp add: two_waiters_def)
  have d: "\<And>hh. scoped_wait_context_dtor 13 ((registered 13 100 100 two_waiters)\<lparr>history := hh\<rparr>)
           = Returned (two_waiters\<lparr>history := hh\<rparr>)"
    by (rule dtor_after_registered [OF bucket_list_two_waiters two_waiters_13])
  from wait_sleeps_at_most_once [of "\<lambda>a. a" no_faults "\<lambda>s. Some s" 13 100 "bytes_of_int32 0" 4
      two_waiters "\<lambda>s. s" 50 "[12, 11]"] h
  show ?thesis
    by (simp add: bucket_100 e d record_event_def)
qed

subsection \<open>Exceptions end at the public operations\<close>

text \<open>
  C5. None of the four public operations of the portable build lets an exception out,
  on any state and with any fault: the outcome is never \<^const>\<open>Threw\<close>. When the wait
  table's own operation throws (the mutex cannot be locked, the condition variable of
  the context cannot be constructed), it throws before anything is registered, and the
  public operation returns with the state it was called in: a wait returns at once,
  without sleeping, and a notify does nothing. (The native backends call the operating
  system and drop its result; they have nothing to throw.)
\<close>

theorem public_operations_never_throw:
  "(\<forall>s'. atomic_wait_native hasher f sched c atom old s \<noteq> Some (Threw s'))
   \<and> (\<forall>s'. atomic_wait_for_native hasher f sched' c atom old ms s \<noteq> Threw s')
   \<and> (\<forall>s'. atomic_notify_one_native hasher f atom s \<noteq> Some (Threw s'))
   \<and> (\<forall>s'. atomic_notify_all_native hasher f atom s \<noteq> Some (Threw s'))
   \<and> (\<forall>s'. wait hasher f sched c atom (bytes_of_int32 old) sizeof_int32 s = Some (Threw s') \<longrightarrow>
          s' = s \<and> atomic_wait_native hasher f sched c atom old s = Some (Returned s))
   \<and> (\<forall>s'. wait_for hasher f sched' c atom (bytes_of_int32 old) sizeof_int32 ms s = Threw s' \<longrightarrow>
          s' = s \<and> atomic_wait_for_native hasher f sched' c atom old ms s = Returned s)
   \<and> (\<forall>s'. notify_one hasher f atom s = Some (Threw s') \<longrightarrow>
          s' = s \<and> atomic_notify_one_native hasher f atom s = Some (Returned s))
   \<and> (\<forall>s'. notify_all hasher f atom s = Some (Threw s') \<longrightarrow>
          s' = s \<and> atomic_notify_all_native hasher f atom s = Some (Returned s))
   \<and> (lock_throws f \<or> cv_ctor_throws f \<longrightarrow>
          atomic_wait_native hasher f sched c atom old s = Some (Returned s)
          \<and> atomic_wait_for_native hasher f sched' c atom old ms s = Returned s)
   \<and> (lock_throws f \<longrightarrow>
          atomic_notify_one_native hasher f atom s = Some (Returned s)
          \<and> atomic_notify_all_native hasher f atom s = Some (Returned s))"
proof (intro conjI allI impI)
  fix s'
  show "atomic_wait_native hasher f sched c atom old s \<noteq> Some (Threw s')"
    by (auto simp: atomic_wait_native_def catch_all_never_throws)
  show "atomic_wait_for_native hasher f sched' c atom old ms s \<noteq> Threw s'"
    by (simp add: atomic_wait_for_native_def catch_all_never_throws)
  show "atomic_notify_one_native hasher f atom s \<noteq> Some (Threw s')"
    by (auto simp: atomic_notify_one_native_def catch_all_never_throws)
  show "atomic_notify_all_native hasher f atom s \<noteq> Some (Threw s')"
    by (auto simp: atomic_notify_all_native_def catch_all_never_throws)
next
  fix s'
  assume w: "wait hasher f sched c atom (bytes_of_int32 old) sizeof_int32 s = Some (Threw s')"
  from wait_throws [OF w] show "s' = s" by simp
  with w show "atomic_wait_native hasher f sched c atom old s = Some (Returned s)"
    by (simp add: atomic_wait_native_def catch_all_def)
next
  fix s'
  assume w: "wait_for hasher f sched' c atom (bytes_of_int32 old) sizeof_int32 ms s = Threw s'"
  from wait_for_throws [OF w] show "s' = s" by simp
  with w show "atomic_wait_for_native hasher f sched' c atom old ms s = Returned s"
    by (simp add: atomic_wait_for_native_def catch_all_def)
next
  fix s'
  assume w: "notify_one hasher f atom s = Some (Threw s')"
  from notify_one_throws [OF w] show "s' = s" by simp
  with w show "atomic_notify_one_native hasher f atom s = Some (Returned s)"
    by (simp add: atomic_notify_one_native_def catch_all_def)
next
  fix s'
  assume w: "notify_all hasher f atom s = Some (Threw s')"
  from notify_all_throws [OF w] show "s' = s" by simp
  with w show "atomic_notify_all_native hasher f atom s = Some (Returned s)"
    by (simp add: atomic_notify_all_native_def catch_all_def)
next
  assume "lock_throws f \<or> cv_ctor_throws f"
  from wait_when_faulty [OF this]
  show "atomic_wait_native hasher f sched c atom old s = Some (Returned s)"
    and "atomic_wait_for_native hasher f sched' c atom old ms s = Returned s"
    by (simp_all add: atomic_wait_native_def atomic_wait_for_native_def catch_all_def)
next
  assume "lock_throws f"
  then show "atomic_notify_one_native hasher f atom s = Some (Returned s)"
    and "atomic_notify_all_native hasher f atom s = Some (Returned s)"
    by (simp_all add: atomic_notify_one_native_def atomic_notify_all_native_def
        notify_one_def notify_all_def catch_all_def)
qed

theorem public_operations_never_throw_witness:
  "wait (\<lambda>a. a) cv_fault (\<lambda>s. None) 13 100 (bytes_of_int32 0) sizeof_int32 two_waiters
     = Some (Threw two_waiters)
   \<and> atomic_wait_native (\<lambda>a. a) cv_fault (\<lambda>s. None) 13 100 0 two_waiters = Some (Returned two_waiters)
   \<and> atomic_wait_for_native (\<lambda>a. a) cv_fault (\<lambda>s. s) 13 100 0 50 two_waiters = Returned two_waiters
   \<and> notify_one (\<lambda>a. a) lock_fault 100 two_waiters = Some (Threw two_waiters)
   \<and> atomic_notify_one_native (\<lambda>a. a) lock_fault 100 two_waiters = Some (Returned two_waiters)
   \<and> atomic_notify_all_native (\<lambda>a. a) lock_fault 100 two_waiters = Some (Returned two_waiters)"
proof -
  have w: "wait (\<lambda>a. a) cv_fault (\<lambda>s. None) 13 100 (bytes_of_int32 0) sizeof_int32 two_waiters
     = Some (Threw two_waiters)"
    by (simp add: wait_def scoped_wait_context_ctor_def cv_fault_def)
  have n: "notify_one (\<lambda>a. a) lock_fault 100 two_waiters = Some (Threw two_waiters)"
    by (simp add: notify_one_def lock_fault_def)
  have f: "lock_throws cv_fault \<or> cv_ctor_throws cv_fault" "lock_throws lock_fault"
    by (simp_all add: cv_fault_def lock_fault_def)
  from public_operations_never_throw [of "\<lambda>a. a" cv_fault "\<lambda>s. None" 13 100 0 two_waiters "\<lambda>s. s" 50] w f(1)
  have a: "atomic_wait_native (\<lambda>a. a) cv_fault (\<lambda>s. None) 13 100 0 two_waiters = Some (Returned two_waiters)
     \<and> atomic_wait_for_native (\<lambda>a. a) cv_fault (\<lambda>s. s) 13 100 0 50 two_waiters = Returned two_waiters"
    by blast
  from public_operations_never_throw [of "\<lambda>a. a" lock_fault "\<lambda>s. None" 13 100 0 two_waiters "\<lambda>s. s" 50] n f(2)
  have b: "atomic_notify_one_native (\<lambda>a. a) lock_fault 100 two_waiters = Some (Returned two_waiters)
     \<and> atomic_notify_all_native (\<lambda>a. a) lock_fault 100 two_waiters = Some (Returned two_waiters)"
    by blast
  from w n a b show ?thesis by simp
qed

section \<open>The table as a whole\<close>

lemma bucket_in_range: "get_bucket_for hasher a < k_wait_table_size"
  by (simp add: get_bucket_for_def k_wait_table_size_def)

lemma table_inv_bucket: "table_inv s L \<Longrightarrow> b < k_wait_table_size \<Longrightarrow> bucket_list s b (L b)"
  by (simp add: table_inv_def)

lemma table_inv_live:
  "table_inv s L \<Longrightarrow> contexts s x = Some c \<Longrightarrow>
     parent_bucket c < k_wait_table_size \<and> x \<in> set (L (parent_bucket c))"
  by (simp add: table_inv_def)

lemma table_inv_parent:
  "table_inv s L \<Longrightarrow> b < k_wait_table_size \<Longrightarrow> x \<in> set (L b) \<Longrightarrow>
     \<exists>c. contexts s x = Some c \<and> parent_bucket c = b"
proof -
  assume inv: "table_inv s L" and b: "b < k_wait_table_size" and x: "x \<in> set (L b)"
  from table_inv_bucket [OF inv b] have "dll (contexts s) None (head (m_wait_table s b)) (L b)"
    by (simp add: bucket_list_def)
  from dll_live [OF this x] obtain c where c: "contexts s x = Some c" by blast
  with inv b x have "parent_bucket c = b" by (simp add: table_inv_def)
  with c show ?thesis by simp
qed

lemma table_inv_disjoint:
  assumes "table_inv s L" and "b < k_wait_table_size" and "b' < k_wait_table_size"
    and "x \<in> set (L b)" and "x \<in> set (L b')"
  shows "b' = b"
  using table_inv_parent [OF assms(1,2,4)] table_inv_parent [OF assms(1,3,5)] by auto

lemma table_inv_fresh:
  assumes "table_inv s L" and "contexts s x = None" and "b < k_wait_table_size"
  shows "x \<notin> set (L b)"
proof
  assume "x \<in> set (L b)"
  from table_inv_parent [OF assms(1,3) this] assms(2) show False by simp
qed

lemma table_inv_none_linked:
  assumes "table_inv s L" and "contexts s c = None"
  shows "\<forall>b<k_wait_table_size. c \<notin> set (L b)"
  using table_inv_fresh [OF assms] by blast

lemma table_inv_ignores [simp]:
  "table_inv (s\<lparr>memory := m\<rparr>) L = table_inv s L"
  "table_inv (s\<lparr>history := hh\<rparr>) L = table_inv s L"
  "table_inv (record_event e s) L = table_inv s L"
  by (simp_all add: table_inv_def bucket_list_def record_event_def)

lemma payload_parent_eq:
  assumes "map_option payload (h' z) = map_option payload (h z)" and "h' z = Some c'"
  shows "\<exists>c. h z = Some c \<and> parent_bucket c = parent_bucket c'"
  using assms by (cases "h z") (auto simp: payload_def)

lemma registered_parent:
  assumes "z \<noteq> this" and "contexts (registered this b a s) z = Some c'"
  shows "\<exists>c. contexts s z = Some c \<and> parent_bucket c = parent_bucket c'"
  using payload_parent_eq [of "contexts (registered this b a s)" z "contexts s" c']
    registered_payload [OF assms(1), of b a s] assms(2)
  by simp

lemma unregistered_parent:
  assumes "z \<noteq> this" and "contexts (unregistered this b s) z = Some c'"
  shows "\<exists>c. contexts s z = Some c \<and> parent_bucket c = parent_bucket c'"
  using payload_parent_eq [of "contexts (unregistered this b s)" z "contexts s" c']
    unregistered_payload [OF assms(1), of b s] assms(2)
  by simp

lemma table_inv_registered:
  assumes inv: "table_inv s L" and fresh: "contexts s this = None"
    and b: "b < k_wait_table_size"
  shows "table_inv (registered this b a s) (L(b := this # L b))"
proof -
  let ?s1 = "registered this b a s"
  let ?L1 = "L(b := this # L b)"
  note blb = table_inv_bucket [OF inv b]
  have one: "bucket_list ?s1 b' (?L1 b')" if b': "b' < k_wait_table_size" for b'
  proof (cases "b' = b")
    case True
    with registered_bucket_list [OF blb fresh] show ?thesis by simp
  next
    case False
    from table_inv_bucket [OF inv b']
    have d: "dll (contexts s) None (head (m_wait_table s b')) (L b')"
      by (simp add: bucket_list_def)
    have "\<forall>z\<in>set (L b'). contexts ?s1 z = contexts s z"
    proof
      fix z assume z: "z \<in> set (L b')"
      with table_inv_fresh [OF inv fresh b'] have "z \<noteq> this" by auto
      moreover from z False table_inv_disjoint [OF inv b b' _ z] have "z \<notin> set (L b)" by auto
      ultimately show "contexts ?s1 z = contexts s z"
        using blb by (intro registered_outside)
    qed
    with d have "dll (contexts ?s1) None (head (m_wait_table s b')) (L b')"
      by (rule dll_same)
    with False show ?thesis by (simp add: bucket_list_def)
  qed
  have two: "parent_bucket c < k_wait_table_size \<and> x \<in> set (?L1 (parent_bucket c))"
    if x: "contexts ?s1 x = Some c" for x c
  proof (cases "x = this")
    case True
    with x registered_self [OF blb fresh, of a] b show ?thesis
      by (auto simp: new_context_def)
  next
    case False
    from registered_parent [OF False x]
    obtain c0 where "contexts s x = Some c0" "parent_bucket c0 = parent_bucket c" by blast
    with table_inv_live [OF inv, of x c0] show ?thesis by auto
  qed
  have three: "parent_bucket c = b'"
    if b': "b' < k_wait_table_size" and x: "x \<in> set (?L1 b')" and c: "contexts ?s1 x = Some c"
    for b' x c
  proof (cases "x = this")
    case True
    with x table_inv_fresh [OF inv fresh b'] have "b' = b" by (auto split: if_splits)
    with True c registered_self [OF blb fresh, of a] show ?thesis
      by (auto simp: new_context_def)
  next
    case False
    with x have xl: "x \<in> set (L b')" by (auto split: if_splits)
    from registered_parent [OF False c]
    obtain c0 where "contexts s x = Some c0" "parent_bucket c0 = parent_bucket c" by blast
    with table_inv_parent [OF inv b' xl] show ?thesis by auto
  qed
  from one two three show ?thesis
    unfolding table_inv_def by blast
qed

lemma table_inv_unregistered:
  assumes inv: "table_inv s L" and b: "b < k_wait_table_size" and mem: "this \<in> set (L b)"
  shows "table_inv (unregistered this b s) (L(b := remove1 this (L b)))"
proof -
  let ?s1 = "unregistered this b s"
  let ?L1 = "L(b := remove1 this (L b))"
  note blb = table_inv_bucket [OF inv b]
  have one: "bucket_list ?s1 b' (?L1 b')" if b': "b' < k_wait_table_size" for b'
  proof (cases "b' = b")
    case True
    with unregistered_bucket_list [OF blb mem] show ?thesis by simp
  next
    case False
    from table_inv_bucket [OF inv b']
    have d: "dll (contexts s) None (head (m_wait_table s b')) (L b')"
      by (simp add: bucket_list_def)
    have "\<forall>z\<in>set (L b'). contexts ?s1 z = contexts s z"
    proof
      fix z assume z: "z \<in> set (L b')"
      from z False table_inv_disjoint [OF inv b b' _ z] have "z \<notin> set (L b)" by auto
      with blb mem show "contexts ?s1 z = contexts s z"
        by (intro unregistered_outside)
    qed
    with d have "dll (contexts ?s1) None (head (m_wait_table s b')) (L b')"
      by (rule dll_same)
    with False show ?thesis by (simp add: bucket_list_def)
  qed
  have two: "parent_bucket c < k_wait_table_size \<and> x \<in> set (?L1 (parent_bucket c))"
    if x: "contexts ?s1 x = Some c" for x c
  proof -
    from x have ne: "x \<noteq> this" by auto
    from unregistered_parent [OF ne x]
    obtain c0 where c0: "contexts s x = Some c0" "parent_bucket c0 = parent_bucket c" by blast
    with table_inv_live [OF inv, of x c0] ne show ?thesis by auto
  qed
  have three: "parent_bucket c = b'"
    if b': "b' < k_wait_table_size" and x: "x \<in> set (?L1 b')" and c: "contexts ?s1 x = Some c"
    for b' x c
  proof -
    from c have ne: "x \<noteq> this" by auto
    from x set_remove1_subset [of this "L b"] have xl: "x \<in> set (L b')"
      by (auto split: if_splits)
    from unregistered_parent [OF ne c]
    obtain c0 where "contexts s x = Some c0" "parent_bucket c0 = parent_bucket c" by blast
    with table_inv_parent [OF inv b' xl] show ?thesis by auto
  qed
  from one two three show ?thesis
    unfolding table_inv_def by blast
qed

lemma notified_parent:
  "map_option parent_bucket (contexts (notified q s) z) = map_option parent_bucket (contexts s z)"
  by (simp add: notified_def split: option.splits)

lemma notified_all_parent:
  "map_option parent_bucket (contexts (notified_all a xs s) z)
     = map_option parent_bucket (contexts s z)"
  by (auto simp: notified_all_def option.map_comp comp_def intro!: option.map_cong)

lemma table_inv_same:
  assumes inv: "table_inv s L" and sl: "same_links s s'"
    and par: "\<And>z. map_option parent_bucket (contexts s' z) = map_option parent_bucket (contexts s z)"
  shows "table_inv s' L"
proof -
  have live: "\<exists>c0. contexts s x = Some c0 \<and> parent_bucket c0 = parent_bucket c"
    if "contexts s' x = Some c" for x c
    using par [of x] that by (cases "contexts s x") auto
  have one: "bucket_list s' b (L b)" if "b < k_wait_table_size" for b
    using same_links_bucket_list [OF sl] table_inv_bucket [OF inv that] by simp
  have two: "parent_bucket c < k_wait_table_size \<and> x \<in> set (L (parent_bucket c))"
    if "contexts s' x = Some c" for x c
  proof -
    from live [OF that] obtain c0 where c0: "contexts s x = Some c0"
        "parent_bucket c0 = parent_bucket c" by blast
    from table_inv_live [OF inv c0(1)] c0(2) show ?thesis by simp
  qed
  have three: "parent_bucket c = b"
    if "b < k_wait_table_size" and "x \<in> set (L b)" and "contexts s' x = Some c" for b x c
  proof -
    from live [OF that(3)] obtain c0 where c0: "contexts s x = Some c0"
        "parent_bucket c0 = parent_bucket c" by blast
    from table_inv_parent [OF inv that(1,2)] c0 show ?thesis by simp
  qed
  from one two three show ?thesis
    unfolding table_inv_def by blast
qed

lemma table_inv_notify_one:
  assumes inv: "table_inv s L" and n: "notify_one hasher f a s = Some (Returned s')"
  shows "table_inv s' L"
proof -
  let ?b = "get_bucket_for hasher a"
  from n have nl: "\<not> lock_throws f" by (auto simp: notify_one_def split: if_splits)
  from table_inv_bucket [OF inv bucket_in_range]
  have "dll (contexts s) None (head (m_wait_table s ?b)) (L ?b)" by (simp add: bucket_list_def)
  from notify_one_scan_dll [OF this, of a] n nl
  have s': "s' = (case find (watches s a) (L ?b) of None \<Rightarrow> s | Some q \<Rightarrow> notified q s)"
    by (simp add: notify_one_def)
  show ?thesis
  proof (cases "find (watches s a) (L ?b)")
    case None
    with s' inv show ?thesis by simp
  next
    case (Some q)
    with s' have "s' = notified q s" by simp
    with inv show ?thesis
      by (auto intro: table_inv_same same_links_notified notified_parent)
  qed
qed

lemma table_inv_notify_all:
  assumes inv: "table_inv s L" and n: "notify_all hasher f a s = Some (Returned s')"
  shows "table_inv s' L"
proof -
  let ?b = "get_bucket_for hasher a"
  from n have nl: "\<not> lock_throws f" by (auto simp: notify_all_def split: if_splits)
  from table_inv_bucket [OF inv bucket_in_range]
  have "dll (contexts s) None (head (m_wait_table s ?b)) (L ?b)" by (simp add: bucket_list_def)
  from notify_all_scan_dll [OF this, of a] n nl
  have "s' = notified_all a (L ?b) s"
    by (simp add: notify_all_def)
  with inv show ?thesis
    by (auto intro: table_inv_same same_links_notified_all notified_all_parent)
qed

subsection \<open>Other threads keep the table well formed\<close>

lemma other_threads_inv:
  assumes "other_threads hasher c s s'" and "table_inv s L"
    and "b < k_wait_table_size" and "c \<in> set (L b)"
  shows "\<exists>L'. table_inv s' L' \<and> c \<in> set (L' b)"
  using assms
proof (induction arbitrary: L rule: other_threads.induct)
  case (nothing s)
  then show ?case by blast
next
  case (stores s s1 m)
  from stores.IH [OF stores.prems] show ?case by simp
next
  case (notifies_one s s1 f a s2)
  from notifies_one.IH [OF notifies_one.prems] obtain L1 where "table_inv s1 L1" "c \<in> set (L1 b)"
    by blast
  with table_inv_notify_one [OF _ notifies_one.hyps(2)] show ?case by blast
next
  case (notifies_all s s1 f a s2)
  from notifies_all.IH [OF notifies_all.prems] obtain L1 where "table_inv s1 L1" "c \<in> set (L1 b)"
    by blast
  with table_inv_notify_all [OF _ notifies_all.hyps(2)] show ?case by blast
next
  case (registers s s1 c' f a s2)
  from registers.IH [OF registers.prems] obtain L1 where L1: "table_inv s1 L1" "c \<in> set (L1 b)"
    by blast
  let ?b' = "get_bucket_for hasher a"
  from ctor_registered [OF table_inv_bucket [OF L1(1) bucket_in_range [of hasher a]]
      registers.hyps(3) ctor_returned_no_fault [OF registers.hyps(4)], of a] registers.hyps(4)
  have "s2 = registered c' ?b' a s1" by simp
  with table_inv_registered [OF L1(1) registers.hyps(3) bucket_in_range [of hasher a], of a]
  have "table_inv s2 (L1(?b' := c' # L1 ?b'))" by simp
  moreover from L1(2) have "c \<in> set ((L1(?b' := c' # L1 ?b')) b)" by auto
  ultimately show ?case by blast
next
  case (unregisters s s1 c' s2)
  from unregisters.IH [OF unregisters.prems] obtain L1 where L1: "table_inv s1 L1" "c \<in> set (L1 b)"
    by blast
  from dtor_returned_live [OF unregisters.hyps(3)] obtain c0 where c0: "contexts s1 c' = Some c0"
    by blast
  let ?p = "parent_bucket c0"
  from table_inv_live [OF L1(1) c0] have p: "?p < k_wait_table_size" "c' \<in> set (L1 ?p)"
    by simp_all
  from dtor_unregistered [OF table_inv_bucket [OF L1(1) p(1)] p(2) c0] unregisters.hyps(3)
  have "s2 = unregistered c' ?p s1" by simp
  with table_inv_unregistered [OF L1(1) p]
  have "table_inv s2 (L1(?p := remove1 c' (L1 ?p)))" by simp
  moreover from L1(2) unregisters.hyps(2) have "c \<in> set ((L1(?p := remove1 c' (L1 ?p))) b)"
    by auto
  ultimately show ?case by blast
qed

lemma notifier_other_threads: "\<forall>s1 s2. notifier s1 = Some s2 \<longrightarrow> other_threads (\<lambda>a. a) c s1 s2"
proof (intro allI impI)
  fix s1 s2 assume "notifier s1 = Some s2"
  then have "notify_one (\<lambda>a. a) no_faults 100 s1 = Some (Returned s2)"
    by (auto simp: notifier_def split: option.splits outcome.splits)
  with other_threads.nothing [of "\<lambda>a. a" c s1] show "other_threads (\<lambda>a. a) c s1 s2"
    by (rule other_threads.notifies_one)
qed

lemma silent_store_other_threads: "\<forall>s1. other_threads (\<lambda>a. a) c s1 (silent_store s1)"
  unfolding silent_store_def
  by (intro allI other_threads.stores other_threads.nothing)

lemma notifier_signals_13:
  "notifier (record_event e (registered 13 100 100 two_waiters))
     = Some (notified 13 (record_event e (registered 13 100 100 two_waiters)))"
proof -
  let ?s = "record_event e (registered 13 100 100 two_waiters)"
  from registered_bucket_list [OF bucket_list_two_waiters two_waiters_13, of 100]
  have "dll (contexts ?s) None (head (m_wait_table ?s (get_bucket_for (\<lambda>a. a) 100))) [13, 12, 11]"
    by (simp add: bucket_list_def bucket_100 record_event_def)
  from notify_one_scan_dll [OF this, of 100]
  have "notify_one_scan 100 (head (m_wait_table ?s (get_bucket_for (\<lambda>a. a) 100))) ?s
          = Some (Returned (case find (watches ?s 100) [13, 12, 11] of None \<Rightarrow> ?s
                            | Some q \<Rightarrow> notified q ?s))" .
  moreover have "watches ?s 100 13"
    using registered_watches_self [OF bucket_list_two_waiters two_waiters_13, of 100 100]
    by (simp add: watches_def record_event_def)
  ultimately show ?thesis
    by (simp add: notifier_def notify_one_def)
qed

lemma unregistered_after_notifier:
  "unregistered 13 100
     ((notified 13 (record_event e (registered 13 100 100 two_waiters)))\<lparr>history := hh\<rparr>)
    = two_waiters\<lparr>history := hh\<rparr>"
  by (simp add: unregistered_def notified_def record_event_def registered_def two_waiters_def
      store_head_def link_front_def unlink_def set_prev_of_def set_next_of_def new_context_def)

lemma unregistered_after_silent_store:
  "unregistered 13 100
     ((silent_store (record_event e (registered 13 100 100 two_waiters)))\<lparr>history := hh\<rparr>)
    = two_waiters\<lparr>memory := (memory two_waiters)(100 := 1), history := hh\<rparr>"
  by (simp add: unregistered_def silent_store_def record_event_def registered_def two_waiters_def
      store_head_def link_front_def unlink_def set_prev_of_def set_next_of_def new_context_def)

subsection \<open>A context is linked exactly as long as its call lasts\<close>

text \<open>
  C2. Let the table be well formed, let the context be new, and let the scheduler do, while
  the thread sleeps, only what other threads can do (\<^const>\<open>other_threads\<close>). Then, for
  \<^const>\<open>wait\<close> and for the bounded \<^const>\<open>wait_for\<close> alike:
  \<^item> the constructor links the context into the bucket of the watched address and into no
    other bucket;
  \<^item> when taking the lock or building the condition variable throws, the call ends with
    the exception in the very state it started in: nothing was linked;
  \<^item> when the bytes differ, the destructor takes the context out again, and the call
    returns the starting state with only the comparison recorded;
  \<^item> when the bytes are equal, the thread goes to sleep in the state in which the context
    is linked, the scheduler runs from that state, and the call returns the state the
    thread woke up in with exactly this context removed (\<^const>\<open>unregistered\<close>);
    \<^const>\<open>wait\<close> does not end if the thread is never woken, and only then;
  \<^item> during the sleep, in the state the thread falls asleep in and in every state other
    threads can reach from it, the table is well formed and the context is in the list of
    its bucket and of no other bucket; from each such state the destructor succeeds,
    removes the context from that list only, and leaves a well-formed table;
  \<^item> whenever a call ends, by a return or by an exception, the table is well formed, the
    context is not alive and is in no bucket's list.
\<close>

theorem wait_unregisters_on_every_path:
  assumes inv: "table_inv s L" and fresh: "contexts s c = None"
    and len: "n \<le> length comparand"
    and rely: "\<forall>s1 s2. sched s1 = Some s2 \<longrightarrow> other_threads hasher c s1 s2"
    and rely': "\<forall>s1. other_threads hasher c s1 (sched' s1)"
  shows "(\<not> lock_throws f \<and> \<not> cv_ctor_throws f \<longrightarrow>
            scoped_wait_context_ctor f c (get_bucket_for hasher a) a s
              = Returned (registered c (get_bucket_for hasher a) a s)
            \<and> table_inv (registered c (get_bucket_for hasher a) a s)
                 (L(get_bucket_for hasher a := c # L (get_bucket_for hasher a)))
            \<and> (\<forall>b<k_wait_table_size.
                 (c \<in> set ((L(get_bucket_for hasher a := c # L (get_bucket_for hasher a))) b))
                   = (b = get_bucket_for hasher a)))
       \<and> (\<forall>r. wait hasher f sched c a comparand n s = Some r \<longrightarrow>
            (\<exists>s' L'. (r = Returned s' \<or> r = Threw s') \<and> table_inv s' L'
               \<and> contexts s' c = None \<and> (\<forall>b<k_wait_table_size. c \<notin> set (L' b))))
       \<and> ((wait hasher f sched c a comparand n s = None)
            = (\<not> lock_throws f \<and> \<not> cv_ctor_throws f
               \<and> bytes_at (memory s) a n = take n comparand
               \<and> sched (record_event (compared c a n) (registered c (get_bucket_for hasher a) a s))
                   = None))
       \<and> (\<exists>s' L'. (wait_for hasher f sched' c a comparand n t s = Returned s'
                     \<or> wait_for hasher f sched' c a comparand n t s = Threw s')
               \<and> table_inv s' L' \<and> contexts s' c = None
               \<and> (\<forall>b<k_wait_table_size. c \<notin> set (L' b)))
       \<and> (lock_throws f \<or> cv_ctor_throws f \<longrightarrow>
            wait hasher f sched c a comparand n s = Some (Threw s)
            \<and> wait_for hasher f sched' c a comparand n t s = Threw s)
       \<and> (\<not> lock_throws f \<and> \<not> cv_ctor_throws f
            \<and> bytes_at (memory s) a n \<noteq> take n comparand \<longrightarrow>
            scoped_wait_context_dtor c
                (record_event (compared c a n) (registered c (get_bucket_for hasher a) a s))
              = Returned (record_event (compared c a n) s)
            \<and> wait hasher f sched c a comparand n s
                = Some (Returned (record_event (compared c a n) s))
            \<and> wait_for hasher f sched' c a comparand n t s
                = Returned (record_event (compared c a n) s))
       \<and> (\<not> lock_throws f \<and> \<not> cv_ctor_throws f
            \<and> bytes_at (memory s) a n = take n comparand \<longrightarrow>
            wait hasher f sched c a comparand n s
              = (case sched (record_event (compared c a n)
                               (registered c (get_bucket_for hasher a) a s)) of
                   None \<Rightarrow> None
                 | Some s3 \<Rightarrow>
                     Some (Returned (unregistered c (get_bucket_for hasher a)
                        (s3\<lparr>history := history s @ [compared c a n, slept c]\<rparr>))))
            \<and> wait_for hasher f sched' c a comparand n t s
                = Returned (unregistered c (get_bucket_for hasher a)
                    ((sched' (record_event (compared c a n)
                                (registered c (get_bucket_for hasher a) a s)))
                       \<lparr>history := history s @ [compared c a n, slept_for c t]\<rparr>)))
       \<and> table_inv (record_event (compared c a n) (registered c (get_bucket_for hasher a) a s))
            (L(get_bucket_for hasher a := c # L (get_bucket_for hasher a)))
       \<and> (\<forall>s3. other_threads hasher c
                  (record_event (compared c a n) (registered c (get_bucket_for hasher a) a s)) s3
            \<longrightarrow> (\<exists>L3. table_inv s3 L3
                   \<and> (\<forall>b<k_wait_table_size. (c \<in> set (L3 b)) = (b = get_bucket_for hasher a))
                   \<and> (\<forall>hh. scoped_wait_context_dtor c (s3\<lparr>history := hh\<rparr>)
                             = Returned (unregistered c (get_bucket_for hasher a)
                                           (s3\<lparr>history := hh\<rparr>))
                          \<and> table_inv (unregistered c (get_bucket_for hasher a)
                                         (s3\<lparr>history := hh\<rparr>))
                               (L3(get_bucket_for hasher a
                                     := remove1 c (L3 (get_bucket_for hasher a))))
                          \<and> contexts (unregistered c (get_bucket_for hasher a)
                                        (s3\<lparr>history := hh\<rparr>)) c = None
                          \<and> (\<forall>b<k_wait_table_size.
                               c \<notin> set ((L3(get_bucket_for hasher a
                                     := remove1 c (L3 (get_bucket_for hasher a)))) b)))))"
proof -
  let ?b = "get_bucket_for hasher a"
  let ?s1 = "registered c ?b a s"
  let ?L1 = "L(?b := c # L ?b)"
  let ?e = "compared c a n"
  let ?s2 = "record_event ?e ?s1"
  let ?good = "\<lambda>r. \<exists>s' L'. (r = Returned s' \<or> r = Threw s') \<and> table_inv s' L'
               \<and> contexts s' c = None \<and> (\<forall>b<k_wait_table_size. c \<notin> set (L' b))"
  let ?span = "\<lambda>s3 L3. table_inv s3 L3
                   \<and> (\<forall>b<k_wait_table_size. (c \<in> set (L3 b)) = (b = ?b))
                   \<and> (\<forall>hh. scoped_wait_context_dtor c (s3\<lparr>history := hh\<rparr>)
                             = Returned (unregistered c ?b (s3\<lparr>history := hh\<rparr>))
                          \<and> table_inv (unregistered c ?b (s3\<lparr>history := hh\<rparr>))
                               (L3(?b := remove1 c (L3 ?b)))
                          \<and> contexts (unregistered c ?b (s3\<lparr>history := hh\<rparr>)) c = None
                          \<and> (\<forall>b<k_wait_table_size.
                               c \<notin> set ((L3(?b := remove1 c (L3 ?b))) b)))"
  note b = bucket_in_range [of hasher a]
  note blb = table_inv_bucket [OF inv b]
  note none = table_inv_none_linked [OF inv fresh]
  have inv1: "table_inv ?s1 ?L1"
    using inv fresh b by (rule table_inv_registered)
  then have inv2: "table_inv ?s2 ?L1" by simp
  have only: "\<forall>b'<k_wait_table_size. (c \<in> set (?L1 b')) = (b' = ?b)"
    using none by auto
  have part1: "\<not> lock_throws f \<and> \<not> cv_ctor_throws f \<longrightarrow>
            scoped_wait_context_ctor f c ?b a s = Returned ?s1 \<and> table_inv ?s1 ?L1
            \<and> (\<forall>b'<k_wait_table_size. (c \<in> set (?L1 b')) = (b' = ?b))"
    using ctor_registered [OF blb fresh, of f a] inv1 only by blast
  have thrown: "?good (Threw s)"
    using inv fresh none by blast
  have at_once: "scoped_wait_context_dtor c ?s2 = Returned (record_event ?e s)"
    using dtor_after_registered [OF blb fresh, where a = a and hh = "history s @ [?e]"]
    by (simp add: record_event_def)
  have at_once_good: "?good (Returned (record_event ?e s))"
  proof -
    have "table_inv (record_event ?e s) L" using inv by simp
    moreover have "contexts (record_event ?e s) c = None"
      using fresh by (simp add: record_event_def)
    ultimately show ?thesis using none by blast
  qed
  have span: "\<exists>L3. ?span s3 L3" if o: "other_threads hasher c ?s2 s3" for s3
  proof -
    have "c \<in> set (?L1 ?b)" by simp
    with inv2 obtain L3 where L3: "table_inv s3 L3" "c \<in> set (L3 ?b)"
      using other_threads_inv [OF o _ b] by blast
    have ex: "\<forall>b'<k_wait_table_size. (c \<in> set (L3 b')) = (b' = ?b)"
      using table_inv_disjoint [OF L3(1) b _ L3(2)] L3(2) by blast
    have after: "scoped_wait_context_dtor c (s3\<lparr>history := hh\<rparr>)
                   = Returned (unregistered c ?b (s3\<lparr>history := hh\<rparr>))
                 \<and> table_inv (unregistered c ?b (s3\<lparr>history := hh\<rparr>))
                      (L3(?b := remove1 c (L3 ?b)))
                 \<and> contexts (unregistered c ?b (s3\<lparr>history := hh\<rparr>)) c = None
                 \<and> (\<forall>b<k_wait_table_size. c \<notin> set ((L3(?b := remove1 c (L3 ?b))) b))" for hh
    proof -
      let ?s3 = "s3\<lparr>history := hh\<rparr>"
      from L3(1) have inv3: "table_inv ?s3 L3" by simp
      from table_inv_parent [OF inv3 b L3(2)] obtain c3
        where c3: "contexts ?s3 c = Some c3" "parent_bucket c3 = ?b" by blast
      have d: "scoped_wait_context_dtor c ?s3 = Returned (unregistered c ?b ?s3)"
        using table_inv_bucket [OF inv3 b] L3(2) c3 by (rule dtor_unregistered)
      have inv4: "table_inv (unregistered c ?b ?s3) (L3(?b := remove1 c (L3 ?b)))"
        using inv3 b L3(2) by (rule table_inv_unregistered)
      have gone: "contexts (unregistered c ?b ?s3) c = None" by simp
      from d inv4 gone table_inv_none_linked [OF inv4 gone] show ?thesis by blast
    qed
    from L3(1) ex after show ?thesis by blast
  qed
  have woken: "?good (scoped_wait_context_dtor c (s3\<lparr>history := hh\<rparr>))"
    and woken_eq: "scoped_wait_context_dtor c (s3\<lparr>history := hh\<rparr>)
                     = Returned (unregistered c ?b (s3\<lparr>history := hh\<rparr>))"
    if o: "other_threads hasher c ?s2 s3" for s3 hh
  proof -
    from span [OF o] obtain L3 where L3: "?span s3 L3" by blast
    then show "scoped_wait_context_dtor c (s3\<lparr>history := hh\<rparr>)
                     = Returned (unregistered c ?b (s3\<lparr>history := hh\<rparr>))" by blast
    from L3 have "table_inv (unregistered c ?b (s3\<lparr>history := hh\<rparr>)) (L3(?b := remove1 c (L3 ?b)))"
      "contexts (unregistered c ?b (s3\<lparr>history := hh\<rparr>)) c = None"
      "\<forall>b<k_wait_table_size. c \<notin> set ((L3(?b := remove1 c (L3 ?b))) b)"
      "scoped_wait_context_dtor c (s3\<lparr>history := hh\<rparr>)
                     = Returned (unregistered c ?b (s3\<lparr>history := hh\<rparr>))"
      by blast+
    then show "?good (scoped_wait_context_dtor c (s3\<lparr>history := hh\<rparr>))"
      by (simp del: fun_upd_apply) blast
  qed
  have part5: "\<forall>s3. other_threads hasher c ?s2 s3 \<longrightarrow> (\<exists>L3. ?span s3 L3)"
    using span by blast
  have h2: "history ?s2 = history s @ [?e]" by (simp add: record_event_def)
  show ?thesis
  proof (cases "lock_throws f \<or> cv_ctor_throws f")
    case True
    have w: "wait hasher f sched c a comparand n s = Some (Threw s)"
      "wait_for hasher f sched' c a comparand n t s = Threw s"
      using True by (rule wait_when_faulty)+
    have p2: "\<forall>r. wait hasher f sched c a comparand n s = Some r \<longrightarrow> ?good r"
      using w(1) thrown by simp
    have p3: "(wait hasher f sched c a comparand n s = None)
            = (\<not> lock_throws f \<and> \<not> cv_ctor_throws f
               \<and> bytes_at (memory s) a n = take n comparand \<and> sched ?s2 = None)"
      using w(1) True by auto
    have p4: "?good (wait_for hasher f sched' c a comparand n t s)"
      using w(2) thrown by simp
    from part1 p2 p3 p4 w(1,2) True inv2 part5 show ?thesis
      by blast
  next
    case False
    with ctor_registered [OF blb fresh, of f a]
    have ctor: "scoped_wait_context_ctor f c ?b a s = Returned ?s1" by simp
    show ?thesis
    proof (cases "bytes_at (memory s) a n = take n comparand")
      case differs: False
      from memcmp_differs [OF len differs] obtain r0
        where r0: "memcmp (memory s) a comparand n = Some r0" "r0 \<noteq> 0" by blast
      from False ctor r0 at_once
      have w: "wait hasher f sched c a comparand n s = Some (Returned (record_event ?e s))"
        and w': "wait_for hasher f sched' c a comparand n t s = Returned (record_event ?e s)"
        by (simp_all add: wait_def wait_for_def)
      have p2: "\<forall>r. wait hasher f sched c a comparand n s = Some r \<longrightarrow> ?good r"
        using w at_once_good by simp
      have p3: "(wait hasher f sched c a comparand n s = None)
            = (\<not> lock_throws f \<and> \<not> cv_ctor_throws f
               \<and> bytes_at (memory s) a n = take n comparand \<and> sched ?s2 = None)"
        using w differs by simp
      have p4: "?good (wait_for hasher f sched' c a comparand n t s)"
        using w' at_once_good by simp
      from part1 p2 p3 p4 w w' at_once False differs inv2 part5 show ?thesis
        by blast
    next
      case equal: True
      from memcmp_equal [OF len equal] have r0: "memcmp (memory s) a comparand n = Some 0" .
      from False ctor r0
      have w0: "wait hasher f sched c a comparand n s
                 = (case sched ?s2 of None \<Rightarrow> None
                    | Some s3 \<Rightarrow> Some (scoped_wait_context_dtor c
                         (s3\<lparr>history := history ?s2 @ [slept c]\<rparr>)))"
        and w0': "wait_for hasher f sched' c a comparand n t s
                 = scoped_wait_context_dtor c
                     ((sched' ?s2)\<lparr>history := history ?s2 @ [slept_for c t]\<rparr>)"
        by (simp_all add: wait_def wait_for_def cv_wait_def cv_wait_for_def Let_def
            split: option.splits)
      have o': "other_threads hasher c ?s2 (sched' ?s2)" using rely' by blast
      have w': "wait_for hasher f sched' c a comparand n t s
                = Returned (unregistered c ?b
                    ((sched' ?s2)\<lparr>history := history s @ [?e, slept_for c t]\<rparr>))"
        unfolding w0' using woken_eq [OF o', of "history ?s2 @ [slept_for c t]"]
        by (simp add: h2)
      have w: "wait hasher f sched c a comparand n s
              = (case sched ?s2 of None \<Rightarrow> None
                 | Some s3 \<Rightarrow> Some (Returned (unregistered c ?b
                        (s3\<lparr>history := history s @ [?e, slept c]\<rparr>))))"
      proof (cases "sched ?s2")
        case None
        with w0 show ?thesis by simp
      next
        case (Some s3)
        with rely have "other_threads hasher c ?s2 s3" by blast
        from woken_eq [OF this, of "history ?s2 @ [slept c]"] Some w0 show ?thesis
          by (simp add: h2)
      qed
      have p4: "?good (wait_for hasher f sched' c a comparand n t s)"
        unfolding w0' using o' by (rule woken)
      have p2: "\<forall>r. wait hasher f sched c a comparand n s = Some r \<longrightarrow> ?good r"
      proof (intro allI impI)
        fix r assume r: "wait hasher f sched c a comparand n s = Some r"
        with w0 obtain s3 where s3: "sched ?s2 = Some s3"
            "r = scoped_wait_context_dtor c (s3\<lparr>history := history ?s2 @ [slept c]\<rparr>)"
          by (cases "sched ?s2") auto
        from rely s3(1) have "other_threads hasher c ?s2 s3" by blast
        from woken [OF this] s3(2) show "?good r" by simp
      qed
      have p3: "(wait hasher f sched c a comparand n s = None)
            = (\<not> lock_throws f \<and> \<not> cv_ctor_throws f
               \<and> bytes_at (memory s) a n = take n comparand \<and> sched ?s2 = None)"
        unfolding w0 using False equal by (cases "sched ?s2") auto
      from part1 p2 p3 p4 w w' False equal inv2 part5 show ?thesis
        by blast
    qed
  qed
qed

theorem wait_unregisters_on_every_path_witness:
  "table_inv (registered 13 100 100 two_waiters) (two_waiters_lists(100 := 13 # two_waiters_lists 100))
   \<and> (\<exists>r s' L'. wait (\<lambda>a. a) no_faults notifier 13 100 (bytes_of_int32 0) 4 two_waiters = Some r
         \<and> (r = Returned s' \<or> r = Threw s') \<and> table_inv s' L' \<and> contexts s' 13 = None)
   \<and> (\<exists>s' L'. (wait_for (\<lambda>a. a) no_faults silent_store 13 100 (bytes_of_int32 0) 4 50 two_waiters
                   = Returned s'
                 \<or> wait_for (\<lambda>a. a) no_faults silent_store 13 100 (bytes_of_int32 0) 4 50 two_waiters
                   = Threw s')
         \<and> table_inv s' L' \<and> contexts s' 13 = None)
   \<and> table_inv (record_event (compared 13 100 4) (registered 13 100 100 two_waiters))
        (two_waiters_lists(100 := 13 # two_waiters_lists 100))
   \<and> (\<exists>L3. table_inv (notified 13 (record_event (compared 13 100 4)
                                      (registered 13 100 100 two_waiters))) L3
          \<and> 13 \<in> set (L3 100) \<and> 13 \<notin> set (L3 99))
   \<and> wait (\<lambda>a. a) no_faults notifier 13 100 (bytes_of_int32 0) 4 two_waiters
       = Some (Returned (two_waiters\<lparr>history := [compared 13 100 4, slept 13]\<rparr>))
   \<and> (\<exists>L3. table_inv (silent_store (record_event (compared 13 100 4)
                                        (registered 13 100 100 two_waiters))) L3
          \<and> 13 \<in> set (L3 100) \<and> 13 \<notin> set (L3 99))
   \<and> wait_for (\<lambda>a. a) no_faults silent_store 13 100 (bytes_of_int32 0) 4 50 two_waiters
       = Returned (two_waiters\<lparr>memory := (memory two_waiters)(100 := 1),
                                history := [compared 13 100 4, slept_for 13 50]\<rparr>)"
proof -
  let ?s2 = "record_event (compared 13 100 4) (registered 13 100 100 two_waiters)"
  have len: "4 \<le> length (bytes_of_int32 0)" by (simp add: bytes_of_int32_0)
  have eq: "bytes_at (memory two_waiters) 100 4 = take 4 (bytes_of_int32 0)"
    by (simp add: bytes_of_int32_0 bytes_at_4) (simp add: two_waiters_def)
  have h: "history two_waiters = []" by (simp add: two_waiters_def)
  have k: "(100::nat) < k_wait_table_size" "(99::nat) < k_wait_table_size"
    by (simp_all add: k_wait_table_size_def)
  note t = wait_unregisters_on_every_path [OF table_inv_two_waiters two_waiters_13 len
      notifier_other_threads silent_store_other_threads, of no_faults 100 50]
  note t1 = t [THEN conjunct1]
  note t2 = t [THEN conjunct2, THEN conjunct1]
  note t4 = t [THEN conjunct2, THEN conjunct2, THEN conjunct2, THEN conjunct1]
  note t7 = t [THEN conjunct2, THEN conjunct2, THEN conjunct2, THEN conjunct2, THEN conjunct2,
      THEN conjunct2, THEN conjunct1]
  note t8 = t [THEN conjunct2, THEN conjunct2, THEN conjunct2, THEN conjunct2, THEN conjunct2,
      THEN conjunct2, THEN conjunct2, THEN conjunct1]
  note t9 = t [THEN conjunct2, THEN conjunct2, THEN conjunct2, THEN conjunct2, THEN conjunct2,
      THEN conjunct2, THEN conjunct2, THEN conjunct2]
  from t1 have one: "table_inv (registered 13 100 100 two_waiters)
      (two_waiters_lists(100 := 13 # two_waiters_lists 100))"
    by (simp add: bucket_100)
  from t8 have asleep: "table_inv ?s2 (two_waiters_lists(100 := 13 # two_waiters_lists 100))"
    by (simp add: bucket_100)
  from t7 eq
  have w: "wait (\<lambda>a. a) no_faults notifier 13 100 (bytes_of_int32 0) 4 two_waiters
       = Some (Returned (two_waiters\<lparr>history := [compared 13 100 4, slept 13]\<rparr>))"
    by (simp add: bucket_100 notifier_signals_13 unregistered_after_notifier h)
  from t7 eq
  have w': "wait_for (\<lambda>a. a) no_faults silent_store 13 100 (bytes_of_int32 0) 4 50 two_waiters
       = Returned (two_waiters\<lparr>memory := (memory two_waiters)(100 := 1),
                                history := [compared 13 100 4, slept_for 13 50]\<rparr>)"
    by (simp add: bucket_100 unregistered_after_silent_store h)
  have span: "\<exists>L3. table_inv s3 L3 \<and> 13 \<in> set (L3 100) \<and> 13 \<notin> set (L3 99)"
    if "other_threads (\<lambda>a. a) 13 ?s2 s3" for s3
  proof -
    from t9 [unfolded bucket_100] that obtain L3 where "table_inv s3 L3"
        "\<forall>b<k_wait_table_size. (13 \<in> set (L3 b)) = (b = 100)"
      by blast
    with k show ?thesis by auto
  qed
  have "other_threads (\<lambda>a. a) 13 ?s2 (notified 13 ?s2)"
    using notifier_other_threads [of 13] notifier_signals_13 [of "compared 13 100 4"] by blast
  then have during: "\<exists>L3. table_inv (notified 13 ?s2) L3 \<and> 13 \<in> set (L3 100) \<and> 13 \<notin> set (L3 99)"
    by (rule span)
  have "other_threads (\<lambda>a. a) 13 ?s2 (silent_store ?s2)"
    using silent_store_other_threads [of 13] by blast
  then have during': "\<exists>L3. table_inv (silent_store ?s2) L3 \<and> 13 \<in> set (L3 100) \<and> 13 \<notin> set (L3 99)"
    by (rule span)
  from w obtain r where r: "wait (\<lambda>a. a) no_faults notifier 13 100 (bytes_of_int32 0) 4 two_waiters = Some r"
    by blast
  with t2 have two: "\<exists>s' L'. (r = Returned s' \<or> r = Threw s') \<and> table_inv s' L' \<and> contexts s' 13 = None"
    by blast
  from t4 have three: "\<exists>s' L'. (wait_for (\<lambda>a. a) no_faults silent_store 13 100 (bytes_of_int32 0) 4 50 two_waiters
                   = Returned s'
                 \<or> wait_for (\<lambda>a. a) no_faults silent_store 13 100 (bytes_of_int32 0) 4 50 two_waiters
                   = Threw s')
         \<and> table_inv s' L' \<and> contexts s' 13 = None"
    by blast
  from one r two three asleep during w during' w' show ?thesis by blast
qed

end
